theory Spec2Isabelle
  imports Main
begin

section \<open>Python values and exceptions\<close>

text \<open>
  The module \<^verbatim>\<open>models/preprocess.py\<close> is embedded function by function. Python
  integers are \<^typ>\<open>int\<close>, positions produced by \<^verbatim>\<open>enumerate\<close> and ids produced by
  \<^verbatim>\<open>load_vocab\<close> are \<^typ>\<open>nat\<close>, lists are HOL lists and every exception the code
  can raise is a value of \<open>error\<close>, returned as \<open>Inl\<close>.
\<close>

datatype error =
    ValueError          \<comment> \<open>\<^verbatim>\<open>max\<close> of an empty collection, \<^verbatim>\<open>split\<close> with an empty separator\<close>
  | KeyError            \<comment> \<open>a dictionary read at a missing key\<close>
  | IndexError          \<comment> \<open>a list read out of range\<close>
  | UnknownKey          \<comment> \<open>\<^verbatim>\<open>Exception("Unknown key is not allowed.")\<close>\<close>

text \<open>\<^verbatim>\<open>seq[:m]\<close>: a negative bound counts from the end of the list.\<close>

definition slice_to :: "'a list \<Rightarrow> int \<Rightarrow> 'a list" where
  "slice_to seq m =
     (if 0 \<le> m then take (nat m) seq else take (nat (int (length seq) + m)) seq)"

text \<open>\<^verbatim>\<open>[x] * n\<close>: the empty list when \<open>n\<close> is not positive.\<close>

definition repeat :: "'a \<Rightarrow> int \<Rightarrow> 'a list" where
  "repeat x n = replicate (nat n) x"

text \<open>\<^verbatim>\<open>max(xs)\<close> raises \<^verbatim>\<open>ValueError\<close> on an empty collection.\<close>

fun py_max :: "int list \<Rightarrow> error + int" where
  "py_max [] = Inl ValueError"
| "py_max (x # xs) = Inr (fold max xs x)"

text \<open>\<^verbatim>\<open>len(x)\<close> as a Python integer.\<close>

abbreviation len :: "'a list \<Rightarrow> int" where
  "len xs \<equiv> int (length xs)"

section \<open>Padding\<close>

text \<open>
  The loop of \<^verbatim>\<open>_pad_sequences\<close>, with the two accumulators
  \<^verbatim>\<open>sequence_padded\<close> and \<^verbatim>\<open>sequence_length\<close> passed along.
\<close>

fun pad_loop :: "'a list list \<Rightarrow> 'a \<Rightarrow> int \<Rightarrow> 'a list list \<times> int list
    \<Rightarrow> 'a list list \<times> int list" where
  "pad_loop [] pad_tok max_length acc = acc"
| "pad_loop (seq # rest) pad_tok max_length (sequence_padded, sequence_length) =
     (let seq' =
        (if len seq < max_length
         then slice_to seq max_length @ repeat pad_tok (max (max_length - len seq) 0)
         else slice_to seq max_length)
      in pad_loop rest pad_tok max_length
           (sequence_padded @ [seq'], sequence_length @ [min (len seq) max_length]))"

text \<open>\<^verbatim>\<open>_pad_sequences(sequences, pad_tok, max_length)\<close>.\<close>

definition pad_sequences_priv :: "'a list list \<Rightarrow> 'a \<Rightarrow> int \<Rightarrow> 'a list list \<times> int list" where
  "pad_sequences_priv sequences pad_tok max_length =
     pad_loop sequences pad_tok max_length ([], [])"

text \<open>
  \<^verbatim>\<open>pad_sequences(sequences, max_length, pad_tok, max_length_word, nlevels)\<close>. The
  two branches take and return data of different depth, so each branch is a function of
  its own: \<open>pad_sequences_1\<close> is the branch \<^verbatim>\<open>nlevels == 1\<close> (the default) and
  \<open>pad_sequences_2\<close> the branch \<^verbatim>\<open>nlevels == 2\<close>. An omitted target is \<open>None\<close>.
\<close>

definition pad_sequences_1 ::
    "'a list list \<Rightarrow> int option \<Rightarrow> 'a \<Rightarrow> error + ('a list list \<times> int list)" where
  "pad_sequences_1 sequences max_length pad_tok =
     (case (case max_length of
              None \<Rightarrow> py_max (map len sequences)
            | Some m \<Rightarrow> Inr m) of
        Inl e \<Rightarrow> Inl e
      | Inr m \<Rightarrow> Inr (pad_sequences_priv sequences pad_tok m))"

text \<open>
  The list comprehension \<^verbatim>\<open>[max(map(lambda x: len(x), seq)) for seq in sequences]\<close>:
  the first sentence without words raises.
\<close>

fun word_maxima :: "'a list list list \<Rightarrow> error + int list" where
  "word_maxima [] = Inr []"
| "word_maxima (seq # rest) =
     (case py_max (map len seq) of
        Inl e \<Rightarrow> Inl e
      | Inr m \<Rightarrow> (case word_maxima rest of Inl e \<Rightarrow> Inl e | Inr ms \<Rightarrow> Inr (m # ms)))"

text \<open>The loop of the second branch: every sentence is padded word by word.\<close>

fun pad_words_loop :: "'a list list list \<Rightarrow> 'a \<Rightarrow> int
    \<Rightarrow> 'a list list list \<times> int list list \<Rightarrow> 'a list list list \<times> int list list" where
  "pad_words_loop [] pad_tok max_length_word acc = acc"
| "pad_words_loop (seq # rest) pad_tok max_length_word (sequence_padded, sequence_length) =
     (let (sp, sl) = pad_sequences_priv seq pad_tok max_length_word
      in pad_words_loop rest pad_tok max_length_word
           (sequence_padded @ [sp], sequence_length @ [sl]))"

definition pad_sequences_2 ::
    "'a list list list \<Rightarrow> int option \<Rightarrow> 'a \<Rightarrow> int option
      \<Rightarrow> error + ('a list list list \<times> int list list)" where
  "pad_sequences_2 sequences max_length pad_tok max_length_word =
     (case (case max_length_word of
              None \<Rightarrow> (case word_maxima sequences of
                          Inl e \<Rightarrow> Inl e
                        | Inr ms \<Rightarrow> py_max ms)
            | Some w \<Rightarrow> Inr w) of
        Inl e \<Rightarrow> Inl e
      | Inr max_length_word' \<Rightarrow>
          (let (sequence_padded, sequence_length) =
                 pad_words_loop sequences pad_tok max_length_word' ([], [])
           in case (case max_length of
                      None \<Rightarrow> py_max (map len sequences)
                    | Some m \<Rightarrow> Inr m) of
                Inl e \<Rightarrow> Inl e
              | Inr max_length_sentence \<Rightarrow>
                  Inr (fst (pad_sequences_priv sequence_padded
                              (repeat pad_tok max_length_word') max_length_sentence),
                       fst (pad_sequences_priv sequence_length 0 max_length_sentence))))"

section \<open>Strings\<close>

text \<open>
  A Python string is a \<^typ>\<open>string\<close>, one \<^typ>\<open>char\<close> for each code point (so the
  model holds the strings whose code points are below 256). The module's constants:
\<close>

definition UNK :: string where "UNK = ''<UNK>''"
definition NUM :: string where "NUM = ''<NUM>''"
definition PAD :: string where "PAD = ''<PAD>''"
definition NONE :: string where "NONE = ''O''"

text \<open>
  \<^verbatim>\<open>s.split(sep)\<close> for a non-empty separator: the string is cut at every occurrence
  of \<open>sep\<close>, found from the left and not overlapping. \<open>cur\<close> is the piece read so far.
\<close>

function split_scan :: "string \<Rightarrow> string \<Rightarrow> string \<Rightarrow> string list" where
  "split_scan sep cur [] = [cur]"
| "split_scan sep cur (c # cs) =
     (if sep \<noteq> [] \<and> take (length sep) (c # cs) = sep
      then cur # split_scan sep [] (drop (length sep) (c # cs))
      else split_scan sep (cur @ [c]) cs)"
  by pat_completeness auto
termination
  by (relation "measure (\<lambda>(sep, cur, s). length s)") auto

text \<open>An empty separator raises \<^verbatim>\<open>ValueError\<close>.\<close>

definition split :: "string \<Rightarrow> string \<Rightarrow> error + string list" where
  "split s sep = (if sep = [] then Inl ValueError else Inr (split_scan sep [] s))"

section \<open>Chunk extraction\<close>

text \<open>
  A dictionary from tag names to tag ids is the list of its items in insertion order
  (the keys of a dictionary are distinct); \<^verbatim>\<open>tags[k]\<close> is \<open>map_of tags k\<close>. The
  comprehension \<^verbatim>\<open>{idx: tag for tag, idx in tags.items()}\<close> stores the items one after
  the other, so that a later item wins where two tags share an id.
\<close>

definition invert_tags :: "(string \<times> int) list \<Rightarrow> (int \<rightharpoonup> string)" where
  "invert_tags tags = fold (\<lambda>(tag, idx) m. m(idx \<mapsto> tag)) tags Map.empty"

text \<open>
  \<^verbatim>\<open>get_chunk_type(tok, idx_to_tag)\<close>: a missing id raises \<^verbatim>\<open>KeyError\<close>; the class is
  the first piece of the name split at \<^verbatim>\<open>'-'\<close> and the type is the last piece.
\<close>

definition get_chunk_type :: "int \<Rightarrow> (int \<rightharpoonup> string) \<Rightarrow> error + (string \<times> string)" where
  "get_chunk_type tok idx_to_tag =
     (case idx_to_tag tok of
        None \<Rightarrow> Inl KeyError
      | Some tag_name \<Rightarrow>
          (case split tag_name ''-'' of
             Inl e \<Rightarrow> Inl e
           | Inr [] \<Rightarrow> Inl IndexError
           | Inr (p # ps) \<Rightarrow> Inr (p, last (p # ps))))"

text \<open>
  A chunk is \<^verbatim>\<open>(chunk_type, chunk_start, chunk_end)\<close>. The two variables
  \<^verbatim>\<open>chunk_type\<close> and \<^verbatim>\<open>chunk_start\<close> of \<^verbatim>\<open>get_chunks\<close> are always assigned
  together, both \<^verbatim>\<open>None\<close> or a type and a position: they are one optional pair.
\<close>

type_synonym chunk = "string \<times> nat \<times> nat"
type_synonym chunk_state = "chunk list \<times> (string \<times> nat) option"

text \<open>The body of the loop of \<^verbatim>\<open>get_chunks\<close> at position \<open>i\<close> with token \<open>tok\<close>.\<close>

fun chunk_step :: "int \<Rightarrow> (int \<rightharpoonup> string) \<Rightarrow> nat \<Rightarrow> int \<Rightarrow> chunk_state
    \<Rightarrow> error + chunk_state" where
  "chunk_step default_id idx_to_tag i tok (chunks, cur) =
     (if tok = default_id \<and> cur \<noteq> None then
        (case cur of
           None \<Rightarrow> Inr (chunks, cur)
         | Some (chunk_type, chunk_start) \<Rightarrow>
             Inr (chunks @ [(chunk_type, chunk_start, i)], None))
      else if tok \<noteq> default_id then
        (case get_chunk_type tok idx_to_tag of
           Inl e \<Rightarrow> Inl e
         | Inr (tok_chunk_class, tok_chunk_type) \<Rightarrow>
             (case cur of
                None \<Rightarrow> Inr (chunks, Some (tok_chunk_type, i))
              | Some (chunk_type, chunk_start) \<Rightarrow>
                  if tok_chunk_type \<noteq> chunk_type \<or> tok_chunk_class = ''B''
                  then Inr (chunks @ [(chunk_type, chunk_start, i)], Some (tok_chunk_type, i))
                  else Inr (chunks, cur)))
      else Inr (chunks, cur))"

text \<open>\<^verbatim>\<open>for i, tok in enumerate(seq)\<close>, from position \<open>i\<close> on.\<close>

fun chunk_loop :: "int \<Rightarrow> (int \<rightharpoonup> string) \<Rightarrow> nat \<Rightarrow> int list \<Rightarrow> chunk_state
    \<Rightarrow> error + chunk_state" where
  "chunk_loop default_id idx_to_tag i [] st = Inr st"
| "chunk_loop default_id idx_to_tag i (tok # rest) st =
     (case chunk_step default_id idx_to_tag i tok st of
        Inl e \<Rightarrow> Inl e
      | Inr st' \<Rightarrow> chunk_loop default_id idx_to_tag (Suc i) rest st')"

text \<open>\<^verbatim>\<open>get_chunks(seq, tags)\<close>: \<^verbatim>\<open>tags[NONE]\<close> raises when the tag \<^verbatim>\<open>"O"\<close> is missing.\<close>

definition get_chunks :: "int list \<Rightarrow> (string \<times> int) list \<Rightarrow> error + chunk list" where
  "get_chunks seq tags =
     (case map_of tags NONE of
        None \<Rightarrow> Inl KeyError
      | Some default_id \<Rightarrow>
          (case chunk_loop default_id (invert_tags tags) 0 seq ([], None) of
             Inl e \<Rightarrow> Inl e
           | Inr (chunks, None) \<Rightarrow> Inr chunks
           | Inr (chunks, Some (chunk_type, chunk_start)) \<Rightarrow>
               Inr (chunks @ [(chunk_type, chunk_start, length seq)])))"

text \<open>
  The encoding the round trip starts from, written from the property it is stated for:
  from position \<open>lo\<close> on, the tag \<^verbatim>\<open>"O"\<close> up to the start of the next chunk, the
  \<^verbatim>\<open>B-\<close> tag of its type at its start, the \<^verbatim>\<open>I-\<close> tag of its type inside it, and
  \<^verbatim>\<open>"O"\<close> after the last chunk up to the length \<open>n\<close> of the sequence.
\<close>

fun bio_encode_from :: "nat \<Rightarrow> chunk list \<Rightarrow> nat \<Rightarrow> string list" where
  "bio_encode_from lo [] n = replicate (n - lo) ''O''"
| "bio_encode_from lo ((ty, s, e) # cs) n =
     replicate (s - lo) ''O'' @ [''B-'' @ ty] @ replicate (e - s - 1) (''I-'' @ ty)
       @ bio_encode_from e cs n"

definition bio_encode :: "chunk list \<Rightarrow> nat \<Rightarrow> string list" where
  "bio_encode chunks n = bio_encode_from 0 chunks n"

text \<open>
  Chunks in order between two positions: every chunk starts at or after the end of the
  one before it (\<open>lo\<close> for the first), has \<open>start < end\<close>, and the last ends by \<open>hi\<close>.
\<close>

fun chunks_between :: "nat \<Rightarrow> nat \<Rightarrow> chunk list \<Rightarrow> bool" where
  "chunks_between lo hi [] = (lo \<le> hi)"
| "chunks_between lo hi ((ty, s, e) # cs) = (lo \<le> s \<and> s < e \<and> chunks_between e hi cs)"

text \<open>
  The positions a chunk list covers, and the invariant of the scan after the tokens
  \<open>pre\<close>: the closed chunks are in order, the open chunk (if any) starts after them and
  before the current position, and the closed chunks with the open one cover exactly the
  positions of \<open>pre\<close> that carry a tag other than the default one.
\<close>

definition covered :: "chunk list \<Rightarrow> nat set" where
  "covered chunks = (\<Union>(ty, s, e)\<in>set chunks. {s..<e})"

definition chunk_inv :: "int \<Rightarrow> int list \<Rightarrow> chunk_state \<Rightarrow> bool" where
  "chunk_inv d pre st =
     (case st of
        (chunks, None) \<Rightarrow>
          chunks_between 0 (length pre) chunks
          \<and> covered chunks = {j. j < length pre \<and> pre ! j \<noteq> d}
      | (chunks, Some (ty, s)) \<Rightarrow>
          chunks_between 0 s chunks \<and> s < length pre
          \<and> covered chunks \<union> {s..<length pre} = {j. j < length pre \<and> pre ! j \<noteq> d})"

text \<open>
  Closing the open chunk (if any) at a position, and the chunk list that
  \<^verbatim>\<open>get_chunks\<close> returns from the state the scan ends in.
\<close>

fun close_open :: "(string \<times> nat) option \<Rightarrow> nat \<Rightarrow> chunk list" where
  "close_open None i = []"
| "close_open (Some (ty, s)) i = [(ty, s, i)]"

fun finish_chunks :: "nat \<Rightarrow> chunk_state \<Rightarrow> chunk list" where
  "finish_chunks n (chunks, cur) = chunks @ close_open cur n"

section \<open>The interpreter's library\<close>

text \<open>
  Four functions of the interpreter and its standard library decide branches of the
  module: which characters \<^verbatim>\<open>str.strip\<close> removes, \<^verbatim>\<open>str.lower\<close>, whether
  \<^verbatim>\<open>float(s)\<close> returns or raises \<^verbatim>\<open>ValueError\<close>, and whether the Unicode database
  gives a character a numeric value (\<^verbatim>\<open>unicodedata.numeric\<close>). They are not code of
  the module and differ between interpreter versions, so the embedding takes them as a
  parameter \<open>py\<close>; \<open>python3\<close> below is the instance the examples are evaluated with.
\<close>

record pylib =
  isspace :: "char \<Rightarrow> bool"
  lower :: "string \<Rightarrow> string"
  float_parses :: "string \<Rightarrow> bool"
  numeric_defined :: "char \<Rightarrow> bool"

text \<open>\<^verbatim>\<open>s.strip()\<close> and \<^verbatim>\<open>s.startswith(p)\<close>.\<close>

definition strip :: "pylib \<Rightarrow> string \<Rightarrow> string" where
  "strip py s = rev (dropWhile (isspace py) (rev (dropWhile (isspace py) s)))"

definition startswith :: "string \<Rightarrow> string \<Rightarrow> bool" where
  "startswith s p = (take (length p) s = p)"

text \<open>\<^verbatim>\<open>xs[i]\<close>: a negative index counts from the end; out of range raises.\<close>

definition index :: "'a list \<Rightarrow> int \<Rightarrow> error + 'a" where
  "index xs i =
     (let j = (if i < 0 then len xs + i else i)
      in if 0 \<le> j \<and> j < len xs then Inr (xs ! nat j) else Inl IndexError)"

subsection \<open>The instance for the examples: CPython 3, code points below 256\<close>

definition is_ascii_digit :: "char \<Rightarrow> bool" where
  "is_ascii_digit c = (c \<in> set ''0123456789'')"

text \<open>\<^verbatim>\<open>str.isspace\<close> below 256: tab to carriage return, the four separators, the
  space, next line and the no-break space.\<close>

definition py3_isspace :: "char \<Rightarrow> bool" where
  "py3_isspace c =
     (let n = (of_char c :: nat)
      in (9 \<le> n \<and> n \<le> 13) \<or> (28 \<le> n \<and> n \<le> 32) \<or> n = 133 \<or> n = 160)"

text \<open>\<^verbatim>\<open>str.lower\<close> below 256: the letters A to Z, and the capital letters of the
  Latin-1 block (the multiplication sign between them is left alone).\<close>

definition py3_lower_char :: "char \<Rightarrow> char" where
  "py3_lower_char c =
     (let n = (of_char c :: nat)
      in if (65 \<le> n \<and> n \<le> 90) \<or> (192 \<le> n \<and> n \<le> 222 \<and> n \<noteq> 215)
         then char_of (n + 32) else c)"

text \<open>
  \<^verbatim>\<open>float(s)\<close> on a string returns when \<open>s\<close>, without the white space around it, is
  an optional sign followed by \<^verbatim>\<open>inf\<close>, \<^verbatim>\<open>infinity\<close> or \<^verbatim>\<open>nan\<close> in any case, or by
  a decimal number: digits with an optional point (at least one digit on one side of
  it) and an optional exponent, where one underscore may stand between two digits.
  \<open>digits_tail\<close> reads on after a first digit.
\<close>

fun digits_tail :: "string \<Rightarrow> string" where
  "digits_tail (c # d # r) =
     (if is_ascii_digit c then digits_tail (d # r)
      else if c = CHR ''_'' \<and> is_ascii_digit d then digits_tail r
      else c # d # r)"
| "digits_tail [c] = (if is_ascii_digit c then [] else [c])"
| "digits_tail [] = []"

definition digitpart :: "string \<Rightarrow> string option" where
  "digitpart s =
     (case s of
        [] \<Rightarrow> None
      | c # r \<Rightarrow> if is_ascii_digit c then Some (digits_tail r) else None)"

definition drop_sign :: "string \<Rightarrow> string" where
  "drop_sign s =
     (case s of
        [] \<Rightarrow> []
      | c # r \<Rightarrow> if c = CHR ''+'' \<or> c = CHR ''-'' then r else s)"

definition exponent_end :: "string \<Rightarrow> bool" where
  "exponent_end s =
     (case s of
        [] \<Rightarrow> True
      | c # r \<Rightarrow> (c = CHR ''e'' \<or> c = CHR ''E'') \<and> digitpart (drop_sign r) = Some [])"

definition decimal_number :: "string \<Rightarrow> bool" where
  "decimal_number s =
     (case digitpart s of
        Some r \<Rightarrow>
          (case r of
             [] \<Rightarrow> True
           | c # r' \<Rightarrow>
               if c = CHR ''.''
               then (case digitpart r' of Some r'' \<Rightarrow> exponent_end r'' | None \<Rightarrow> exponent_end r')
               else exponent_end r)
      | None \<Rightarrow>
          (case s of
             [] \<Rightarrow> False
           | c # r' \<Rightarrow>
               c = CHR ''.'' \<and> (case digitpart r' of Some r'' \<Rightarrow> exponent_end r'' | None \<Rightarrow> False)))"

definition py3_float_parses :: "string \<Rightarrow> bool" where
  "py3_float_parses s =
     (let t = drop_sign (rev (dropWhile py3_isspace (rev (dropWhile py3_isspace s))))
      in decimal_number t \<or> map py3_lower_char t \<in> set [''inf'', ''infinity'', ''nan''])"

text \<open>The characters below 256 with a numeric value: the digits, the superscripts
  one, two and three, and the fractions one quarter, one half and three quarters.\<close>

definition py3_numeric_defined :: "char \<Rightarrow> bool" where
  "py3_numeric_defined c =
     (is_ascii_digit c \<or> (of_char c :: nat) \<in> set [178, 179, 185, 188, 189, 190])"

definition python3 :: pylib where
  "python3 = \<lparr> isspace = py3_isspace, lower = map py3_lower_char,
               float_parses = py3_float_parses, numeric_defined = py3_numeric_defined \<rparr>"

section \<open>Processor\<close>

text \<open>
  \<^verbatim>\<open>re.compile(r'^[-+]?[0-9]+,[0-9]+$').match(s)\<close>, read from the left: an optional
  sign, the longest run of digits (not empty), a comma, the longest run of digits (not
  empty), and then \<^verbatim>\<open>$\<close>, which matches at the end of the string and also just before
  a newline that ends the string. Taking the longest runs loses no match: what follows a
  run has to be a comma, or the end, and a digit is neither.
\<close>

definition re_match :: "string \<Rightarrow> bool" where
  "re_match s =
     (let s1 = drop_sign s;
          s2 = dropWhile is_ascii_digit s1
      in takeWhile is_ascii_digit s1 \<noteq> [] \<and>
         (case s2 of
            [] \<Rightarrow> False
          | c # s3 \<Rightarrow>
              c = CHR '','' \<and> takeWhile is_ascii_digit s3 \<noteq> [] \<and>
              (let s4 = dropWhile is_ascii_digit s3 in s4 = [] \<or> s4 = [CHR 0x0A])))"

text \<open>
  \<^verbatim>\<open>Processor.is_digit(s)\<close>. \<^verbatim>\<open>unicodedata.numeric(s)\<close> raises \<^verbatim>\<open>TypeError\<close> unless
  \<open>s\<close> is one character and \<^verbatim>\<open>ValueError\<close> when the character has no numeric value;
  both are caught.
\<close>

definition is_digit :: "pylib \<Rightarrow> string \<Rightarrow> bool" where
  "is_digit py s =
     (if float_parses py s then True
      else if (case s of [c] \<Rightarrow> numeric_defined py c | _ \<Rightarrow> False) then True
      else if re_match s then True
      else False)"

text \<open>
  A \<^verbatim>\<open>Processor\<close>. A vocabulary is the dictionary \<^verbatim>\<open>load_vocab\<close> builds, from a
  stripped line of the file to its line number.
\<close>

record processor =
  word_vocab :: "(string \<rightharpoonup> nat) option"
  char_vocab :: "(string \<rightharpoonup> nat) option"
  lowercase :: bool
  use_chars :: bool
  allow_unk :: bool

text \<open>
  The value of the variable \<^verbatim>\<open>word\<close> in \<^verbatim>\<open>fit\<close>: a string, or the id that replaces it;
  and what \<^verbatim>\<open>fit\<close> returns: \<^verbatim>\<open>word\<close>, or the tuple \<^verbatim>\<open>(char_ids, word)\<close>.
\<close>

datatype word_val = Str string | Id nat

datatype fitted = Word word_val | CharsWord "nat list" word_val

fun word_of :: "fitted \<Rightarrow> word_val" where
  "word_of (Word w) = w"
| "word_of (CharsWord cs w) = w"

text \<open>Step 0 of \<^verbatim>\<open>fit\<close>: the ids of the characters of the word that are in the
  character vocabulary.\<close>

fun get_char_ids :: "(string \<rightharpoonup> nat) \<Rightarrow> string \<Rightarrow> nat list" where
  "get_char_ids cv [] = []"
| "get_char_ids cv (c # cs) =
     (case cv [c] of
        Some i \<Rightarrow> i # get_char_ids cv cs
      | None \<Rightarrow> get_char_ids cv cs)"

text \<open>Step 1: lowercasing and the placeholder for numbers.\<close>

definition preprocess_word :: "pylib \<Rightarrow> processor \<Rightarrow> string \<Rightarrow> string" where
  "preprocess_word py p word =
     (let word = (if lowercase p then lower py word else word)
      in if is_digit py word then NUM else word)"

text \<open>Step 2: the id of the word. \<^verbatim>\<open>self.word_vocab[UNK]\<close> raises \<^verbatim>\<open>KeyError\<close> when
  the vocabulary has no \<^verbatim>\<open><UNK>\<close>.\<close>

definition word_id :: "processor \<Rightarrow> string \<Rightarrow> error + word_val" where
  "word_id p word =
     (case word_vocab p of
        None \<Rightarrow> Inr (Str word)
      | Some v \<Rightarrow>
          (case v word of
             Some i \<Rightarrow> Inr (Id i)
           | None \<Rightarrow>
               if allow_unk p
               then (case v UNK of Some u \<Rightarrow> Inr (Id u) | None \<Rightarrow> Inl KeyError)
               else Inl UnknownKey))"

text \<open>\<^verbatim>\<open>Processor.fit(word)\<close>.\<close>

definition fit :: "pylib \<Rightarrow> processor \<Rightarrow> string \<Rightarrow> error + fitted" where
  "fit py p word =
     (let char_ids =
            (case char_vocab p of
               Some cv \<Rightarrow> if use_chars p then get_char_ids cv word else []
             | None \<Rightarrow> [])
      in case word_id p (preprocess_word py p word) of
           Inl e \<Rightarrow> Inl e
         | Inr w \<Rightarrow>
             if char_vocab p \<noteq> None \<and> use_chars p then Inr (CharsWord char_ids w)
             else Inr (Word w))"

text \<open>
  The pattern of the third condition, written from its description: an optional sign,
  one or more digits, a comma, and one or more digits.
\<close>

definition comma_number :: "string \<Rightarrow> bool" where
  "comma_number s =
     (\<exists>sign ds1 ds2. s = sign @ ds1 @ '','' @ ds2
        \<and> (sign = [] \<or> sign = ''+'' \<or> sign = ''-'')
        \<and> ds1 \<noteq> [] \<and> list_all is_ascii_digit ds1
        \<and> ds2 \<noteq> [] \<and> list_all is_ascii_digit ds2)"

section \<open>Batches\<close>

text \<open>
  A sentence as \<^verbatim>\<open>batch_iter\<close> receives it: the list of what one processor returned
  for its tokens, so either a list of words or a list of tuples \<^verbatim>\<open>(char_ids, word)\<close>.
  A sentence in a batch is the list of words as it was, or the two tuples of
  \<^verbatim>\<open>zip(*x)\<close>: all the character id lists, and all the words.
\<close>

datatype sentence = Words "word_val list" | Tuples "(nat list \<times> word_val) list"

datatype batch_sentence = Unchanged "word_val list" | Zipped "nat list list" "word_val list"

text \<open>
  \<^verbatim>\<open>if type(x[0]) == tuple: x = zip(*x)\<close>; \<^verbatim>\<open>x[0]\<close> raises \<^verbatim>\<open>IndexError\<close> on a
  sentence without tokens.
\<close>

fun transpose_sentence :: "sentence \<Rightarrow> error + batch_sentence" where
  "transpose_sentence (Words []) = Inl IndexError"
| "transpose_sentence (Tuples []) = Inl IndexError"
| "transpose_sentence (Words ws) = Inr (Unchanged ws)"
| "transpose_sentence (Tuples ts) = Inr (Zipped (map fst ts) (map snd ts))"

text \<open>
  A generator is the list of what it yields, and the exception that ends it, if one
  does. \<open>batch_loop\<close> is the loop of \<^verbatim>\<open>batch_iter\<close> and what follows it, with the batch
  under construction and the batches yielded so far.
\<close>

type_synonym 'y batch = "batch_sentence list \<times> 'y list"

fun batch_loop :: "(sentence \<times> 'y) list \<Rightarrow> int \<Rightarrow> 'y batch \<Rightarrow> 'y batch list
    \<Rightarrow> 'y batch list \<times> error option" where
  "batch_loop [] batch_size (batch_x, batch_y) yielded =
     (if length batch_x \<noteq> 0 then (yielded @ [(batch_x, batch_y)], None) else (yielded, None))"
| "batch_loop ((x, y) # rest) batch_size (batch_x, batch_y) yielded =
     (let (yielded, batch_x, batch_y) =
            (if len batch_x = batch_size
             then (yielded @ [(batch_x, batch_y)], [], [])
             else (yielded, batch_x, batch_y))
      in case transpose_sentence x of
           Inl e \<Rightarrow> (yielded, Some e)
         | Inr x' \<Rightarrow> batch_loop rest batch_size (batch_x @ [x'], batch_y @ [y]) yielded)"

text \<open>\<^verbatim>\<open>batch_iter(dataset, batch_size)\<close>.\<close>

definition batch_iter :: "(sentence \<times> 'y) list \<Rightarrow> int \<Rightarrow> 'y batch list \<times> error option" where
  "batch_iter dataset batch_size = batch_loop dataset batch_size ([], []) []"

text \<open>
  What a sentence becomes in its batch when it has a first token, and the sentences that
  have one.
\<close>

fun batched :: "sentence \<Rightarrow> batch_sentence" where
  "batched (Words ws) = Unchanged ws"
| "batched (Tuples ts) = Zipped (map fst ts) (map snd ts)"

fun has_tokens :: "sentence \<Rightarrow> bool" where
  "has_tokens (Words ws) = (ws \<noteq> [])"
| "has_tokens (Tuples ts) = (ts \<noteq> [])"

section \<open>Dataset\<close>

text \<open>
  A \<^verbatim>\<open>Dataset\<close>; the file is the list of its lines, as \<^verbatim>\<open>for line in f\<close> reads
  them.
\<close>

record dataset =
  tag_idx :: int
  word_processor :: "processor option"
  tag_processor :: "processor option"
  delimiter :: string
  max_iter :: "int option"

text \<open>\<^verbatim>\<open>word = self.word_processor.fit(word)\<close> when there is a processor.\<close>

definition apply_processor :: "pylib \<Rightarrow> processor option \<Rightarrow> string \<Rightarrow> error + fitted" where
  "apply_processor py proc w =
     (case proc of None \<Rightarrow> Inr (Word (Str w)) | Some p \<Rightarrow> fit py p w)"

text \<open>
  The state of \<^verbatim>\<open>__iter__\<close> between two lines: \<^verbatim>\<open>niter\<close>, \<^verbatim>\<open>words\<close>, \<^verbatim>\<open>tags\<close>
  and the pairs yielded so far (the fields \<open>it_niter\<close>, \<open>it_words\<close>, \<open>it_tags\<close> and
  \<open>it_yielded\<close>). One line either lets the loop go on with a new state, or
  ends it: by \<^verbatim>\<open>break\<close>, or by an exception.
\<close>

record iter_state =
  it_niter :: int
  it_words :: "fitted list"
  it_tags :: "fitted list"
  it_yielded :: "(fitted list \<times> fitted list) list"

datatype step = Continue iter_state | Stop "(fitted list \<times> fitted list) list" "error option"

text \<open>The test that ends a sentence.\<close>

definition is_boundary :: "pylib \<Rightarrow> string \<Rightarrow> bool" where
  "is_boundary py line =
     (length (strip py line) = 0 \<or> startswith (strip py line) ''-DOCSTART-'')"

definition iter_step :: "pylib \<Rightarrow> dataset \<Rightarrow> string \<Rightarrow> iter_state \<Rightarrow> step" where
  "iter_step py ds line st =
     (let line = strip py line
      in if length line = 0 \<or> startswith line ''-DOCSTART-'' then
           (if length (it_words st) \<noteq> 0 then
              (let n = it_niter st + 1
               in if (case max_iter ds of None \<Rightarrow> False | Some m \<Rightarrow> n > m) then Stop (it_yielded st) None
                  else Continue \<lparr> it_niter = n, it_words = [], it_tags = [],
                                   it_yielded = it_yielded st @ [(it_words st, it_tags st)] \<rparr>)
            else Continue st)
         else
           (case split line (delimiter ds) of
              Inl e \<Rightarrow> Stop (it_yielded st) (Some e)
            | Inr ls \<Rightarrow>
                (case index ls 0 of
                   Inl e \<Rightarrow> Stop (it_yielded st) (Some e)
                 | Inr word \<Rightarrow>
                     (case index ls (tag_idx ds) of
                        Inl e \<Rightarrow> Stop (it_yielded st) (Some e)
                      | Inr tag \<Rightarrow>
                          (case apply_processor py (word_processor ds) word of
                             Inl e \<Rightarrow> Stop (it_yielded st) (Some e)
                           | Inr word' \<Rightarrow>
                               (case apply_processor py (tag_processor ds) tag of
                                  Inl e \<Rightarrow> Stop (it_yielded st) (Some e)
                                | Inr tag' \<Rightarrow>
                                    Continue (st\<lparr> it_words := it_words st @ [word'],
                                                  it_tags := it_tags st @ [tag'] \<rparr>)))))))"

text \<open>\<^verbatim>\<open>for line in f\<close>: nothing is yielded after the last line.\<close>

fun iter_loop :: "pylib \<Rightarrow> dataset \<Rightarrow> string list \<Rightarrow> iter_state
    \<Rightarrow> (fitted list \<times> fitted list) list \<times> error option" where
  "iter_loop py ds [] st = (it_yielded st, None)"
| "iter_loop py ds (line # rest) st =
     (case iter_step py ds line st of
        Stop ys e \<Rightarrow> (ys, e)
      | Continue st' \<Rightarrow> iter_loop py ds rest st')"

text \<open>\<^verbatim>\<open>Dataset.__iter__\<close> on a file with the given lines.\<close>

definition dataset_iter :: "pylib \<Rightarrow> dataset \<Rightarrow> string list
    \<Rightarrow> (fitted list \<times> fitted list) list \<times> error option" where
  "dataset_iter py ds lines =
     iter_loop py ds lines \<lparr> it_niter = 0, it_words = [], it_tags = [], it_yielded = [] \<rparr>"

section \<open>Properties of padding\<close>

lemma pad_loop_eq:
  "pad_loop seqs p m (sp, sl) =
     (sp @ map (\<lambda>s. if len s < m then slice_to s m @ repeat p (max (m - len s) 0)
                      else slice_to s m) seqs,
      sl @ map (\<lambda>s. min (len s) m) seqs)"
  by (induction seqs arbitrary: sp sl) (simp_all add: Let_def)

lemma pad_sequences_priv_eq:
  "pad_sequences_priv seqs p m =
     (map (\<lambda>s. if len s < m then slice_to s m @ repeat p (max (m - len s) 0)
                      else slice_to s m) seqs,
      map (\<lambda>s. min (len s) m) seqs)"
  by (simp add: pad_sequences_priv_def pad_loop_eq)

lemma pad_one_nonneg:
  assumes "0 \<le> m"
  shows "(if len s < m then slice_to s m @ repeat p (max (m - len s) 0) else slice_to s m)
           = take (nat m) s @ replicate (nat m - length s) p"
  using assms by (auto simp: slice_to_def repeat_def nat_diff_distrib' max_def)

lemma pad_sequences_priv_nonneg:
  assumes "0 \<le> m"
  shows "pad_sequences_priv seqs p m =
     (map (\<lambda>s. take (nat m) s @ replicate (nat m - length s) p) seqs,
      map (\<lambda>s. min (len s) m) seqs)"
  by (simp add: pad_sequences_priv_eq pad_one_nonneg[OF assms])

text \<open>
  A target length is a number of elements. A negative \<^verbatim>\<open>max_length\<close> is outside
  that reading: the slice then drops elements from the end and the reported length is
  the negative number itself.
\<close>

lemma pad_sequences_priv_negative_target:
  "pad_sequences_priv [[1, 2, 3::int]] 0 (- 1) = ([[1, 2]], [- 1])"
  by (simp add: pad_sequences_priv_def slice_to_def repeat_def)

text \<open>
  Claim C1 (single-level padding postcondition). For every list of sequences, every pad
  value \<open>p\<close> and every target length \<open>m\<close> (a length: \<open>0 \<le> m\<close>), \<^verbatim>\<open>_pad_sequences\<close>
  returns one padded sequence and one length per input sequence; the padded sequence of
  \<open>s\<close> has exactly \<open>m\<close> elements; if \<open>m \<ge> len(s)\<close> its first \<open>len(s)\<close> elements are
  \<open>s\<close> and the remaining \<open>m - len(s)\<close> are all \<open>p\<close>; if \<open>m < len(s)\<close> it is the first
  \<open>m\<close> elements of \<open>s\<close>; the reported length is \<open>min(len(s), m)\<close>.
\<close>

theorem pad_sequences_priv_post:
  assumes "0 \<le> m" and "i < length sequences"
  shows "length (fst (pad_sequences_priv sequences p m)) = length sequences
    \<and> length (snd (pad_sequences_priv sequences p m)) = length sequences
    \<and> length (fst (pad_sequences_priv sequences p m) ! i) = nat m
    \<and> (len (sequences ! i) \<le> m \<longrightarrow>
          take (length (sequences ! i)) (fst (pad_sequences_priv sequences p m) ! i)
            = sequences ! i
        \<and> drop (length (sequences ! i)) (fst (pad_sequences_priv sequences p m) ! i)
            = replicate (nat m - length (sequences ! i)) p)
    \<and> (m < len (sequences ! i) \<longrightarrow>
          fst (pad_sequences_priv sequences p m) ! i = take (nat m) (sequences ! i))
    \<and> snd (pad_sequences_priv sequences p m) ! i = min (len (sequences ! i)) m"
  using assms by (auto simp: pad_sequences_priv_nonneg min_def)

theorem pad_sequences_priv_post_witness:
  "(0::int) \<le> 2 \<and> (1::nat) < length [[1, 2, 3], [4::int]]
    \<and> pad_sequences_priv [[1, 2, 3], [4::int]] 0 2 = ([[1, 2], [4, 0]], [2, 1])
    \<and> length (fst (pad_sequences_priv [[1, 2, 3], [4::int]] 0 2) ! 1) = nat 2
    \<and> drop (length ([[1, 2, 3], [4::int]] ! 1))
         (fst (pad_sequences_priv [[1, 2, 3], [4::int]] 0 2) ! 1) = [0]"
  using pad_sequences_priv_post[of 2 1 "[[1, 2, 3], [4::int]]" 0]
  by (simp add: pad_sequences_priv_def slice_to_def repeat_def)

text \<open>
  Claim C9 (empty-input padding fails fast). With no target length supplied, padding the
  empty list of sequences raises: the maximum over zero sequences is \<^verbatim>\<open>ValueError\<close>, in
  the one-level branch and, whatever the per-word target, in the two-level branch.
\<close>

theorem pad_sequences_empty_fails:
  "pad_sequences_1 ([] :: 'a list list) None pad_tok = Inl ValueError
   \<and> pad_sequences_2 ([] :: 'a list list list) None pad_tok max_length_word = Inl ValueError"
  by (simp add: pad_sequences_1_def pad_sequences_2_def split: option.splits)

lemma pad_words_loop_eq:
  "pad_words_loop seqs p w (sp, sl) =
     (sp @ map (\<lambda>s. fst (pad_sequences_priv s p w)) seqs,
      sl @ map (\<lambda>s. snd (pad_sequences_priv s p w)) seqs)"
  by (induction seqs arbitrary: sp sl) (simp_all add: case_prod_beta)

lemma py_max_nonempty:
  assumes "xs \<noteq> []"
  shows "py_max xs = Inr (Max (set xs))"
proof (cases xs)
  case Nil
  then show ?thesis using assms by simp
next
  case (Cons a list)
  have "Max (set (a # list)) = fold max list a" by (rule Max.set_eq_fold)
  with Cons show ?thesis by simp
qed

lemma word_maxima_nonempty:
  "\<forall>s\<in>set seqs. s \<noteq> [] \<Longrightarrow> word_maxima seqs = Inr (map (\<lambda>s. Max (len ` set s)) seqs)"
  by (induction seqs) (simp_all add: py_max_nonempty)

lemma Max_of_maxima:
  assumes "seqs \<noteq> []" and "\<forall>s\<in>set seqs. s \<noteq> []"
  shows "Max ((\<lambda>s. Max (len ` set s)) ` set seqs) = Max (len ` (\<Union>s\<in>set seqs. set s))"
proof (rule sym, rule Max_eqI)
  show "finite (len ` (\<Union>s\<in>set seqs. set s))" by simp
next
  fix y assume "y \<in> len ` (\<Union>s\<in>set seqs. set s)"
  then obtain s w where sw: "s \<in> set seqs" "w \<in> set s" "y = len w" by auto
  then have "y \<le> Max (len ` set s)" by simp
  also have "\<dots> \<le> Max ((\<lambda>s. Max (len ` set s)) ` set seqs)"
    using sw(1) by simp
  finally show "y \<le> Max ((\<lambda>s. Max (len ` set s)) ` set seqs)" .
next
  have "Max ((\<lambda>s. Max (len ` set s)) ` set seqs) \<in> (\<lambda>s. Max (len ` set s)) ` set seqs"
    using assms(1) by (intro Max_in) simp_all
  then obtain s where s: "s \<in> set seqs"
      "Max ((\<lambda>s. Max (len ` set s)) ` set seqs) = Max (len ` set s)" by auto
  have "Max (len ` set s) \<in> len ` set s"
    using assms(2) s(1) by (intro Max_in) simp_all
  with s show "Max ((\<lambda>s. Max (len ` set s)) ` set seqs) \<in> len ` (\<Union>s\<in>set seqs. set s)"
    by auto
qed

lemma target_word_computed:
  assumes "seqs \<noteq> []" and "\<forall>s\<in>set seqs. s \<noteq> []"
  shows "(case word_maxima seqs of Inl e \<Rightarrow> Inl e | Inr ms \<Rightarrow> py_max ms)
           = Inr (Max (len ` (\<Union>s\<in>set seqs. set s)))"
  using assms by (simp add: word_maxima_nonempty py_max_nonempty Max_of_maxima)

lemma Max_len_nonneg: "xs \<noteq> [] \<Longrightarrow> 0 \<le> Max (len ` set xs)"
  by (cases xs) (auto simp: Max_ge_iff)

lemma pad_sequences_2_nonneg:
  assumes "0 \<le> W" and "0 \<le> S"
    and "(case max_length_word of None \<Rightarrow> (case word_maxima sequences of
                          Inl e \<Rightarrow> Inl e | Inr ms \<Rightarrow> py_max ms) | Some w \<Rightarrow> Inr w) = Inr W"
    and "(case max_length of None \<Rightarrow> py_max (map len sequences) | Some m \<Rightarrow> Inr m) = Inr S"
  shows "pad_sequences_2 sequences max_length pad_tok max_length_word =
     Inr (map (\<lambda>s. take (nat S) (map (\<lambda>w. take (nat W) w @ replicate (nat W - length w) pad_tok) s)
                      @ replicate (nat S - length s) (replicate (nat W) pad_tok)) sequences,
          map (\<lambda>s. take (nat S) (map (\<lambda>w. min (len w) W) s) @ replicate (nat S - length s) 0) sequences)"
  unfolding pad_sequences_2_def assms(3)
  using assms(1,2,4)
  by (simp add: pad_words_loop_eq pad_sequences_priv_nonneg repeat_def o_def)


text \<open>
  Claim C4 (two-level padding shape). For a non-empty list of sentences, each a non-empty
  list of words, the branch \<^verbatim>\<open>nlevels == 2\<close> returns padded data and lengths, one entry
  per sentence. With \<open>W\<close> the given per-word target, or the longest word when omitted,
  and \<open>S\<close> the given per-sentence target, or the longest sentence when omitted (a given
  target being a length, \<open>0 \<le>\<close> it): every padded sentence has exactly \<open>S\<close> words, every
  word in it exactly \<open>W\<close> characters, a sentence shorter than \<open>S\<close> is filled with whole
  words of \<open>W\<close> pad values, and its list of per-word lengths is padded to exactly \<open>S\<close>
  entries with \<open>0\<close>.
\<close>

theorem pad_sequences_2_shape:
  assumes nonempty: "sequences \<noteq> []" "\<forall>s\<in>set sequences. s \<noteq> []"
    and given: "\<forall>w. max_length_word = Some w \<longrightarrow> 0 \<le> w" "\<forall>m. max_length = Some m \<longrightarrow> 0 \<le> m"
    and W: "W = (case max_length_word of Some w \<Rightarrow> w
                 | None \<Rightarrow> Max (len ` (\<Union>s\<in>set sequences. set s)))"
    and S: "S = (case max_length of Some m \<Rightarrow> m | None \<Rightarrow> Max (len ` set sequences))"
  shows "\<exists>padded lens.
      pad_sequences_2 sequences max_length pad_tok max_length_word = Inr (padded, lens)
    \<and> length padded = length sequences \<and> length lens = length sequences
    \<and> (\<forall>i<length sequences.
          length (padded ! i) = nat S
        \<and> (\<forall>w\<in>set (padded ! i). length w = nat W)
        \<and> padded ! i =
            take (nat S) (map (\<lambda>w. take (nat W) w @ replicate (nat W - length w) pad_tok)
                           (sequences ! i))
            @ replicate (nat S - length (sequences ! i)) (replicate (nat W) pad_tok)
        \<and> length (lens ! i) = nat S
        \<and> lens ! i =
            take (nat S) (map (\<lambda>w. min (len w) W) (sequences ! i))
            @ replicate (nat S - length (sequences ! i)) 0)"
proof -
  have some_word: "\<Union> (set ` set sequences) \<noteq> {}"
    using nonempty by (cases sequences) auto
  have W0: "0 \<le> W"
  proof (cases max_length_word)
    case None
    obtain w where "w \<in> \<Union> (set ` set sequences)" using some_word by blast
    then have "len w \<le> Max (len ` (\<Union>s\<in>set sequences. set s))" by (intro Max_ge) auto
    then show ?thesis using None W by simp
  next
    case (Some w)
    then show ?thesis using given(1) W by simp
  qed
  have S0: "0 \<le> S"
  proof (cases max_length)
    case None
    obtain s where "s \<in> set sequences" using nonempty(1) by (cases sequences) auto
    then have "len s \<le> Max (len ` set sequences)" by (intro Max_ge) auto
    then show ?thesis using None S by simp
  next
    case (Some m)
    then show ?thesis using given(2) S by simp
  qed
  have tw: "(case max_length_word of None \<Rightarrow> (case word_maxima sequences of
                Inl e \<Rightarrow> Inl e | Inr ms \<Rightarrow> py_max ms) | Some w \<Rightarrow> Inr w) = Inr W"
    using W target_word_computed[OF nonempty] by (simp split: option.splits)
  have ts: "(case max_length of None \<Rightarrow> py_max (map len sequences) | Some m \<Rightarrow> Inr m) = Inr S"
    using S nonempty(1) by (simp add: py_max_nonempty split: option.splits)
  show ?thesis
    unfolding pad_sequences_2_nonneg[OF W0 S0 tw ts]
    by (auto simp: min_def dest!: in_set_takeD)
qed

theorem pad_sequences_2_shape_witness:
  "[[[1, 2, 3], [4]], [[5, 6::int]]] \<noteq> []
   \<and> pad_sequences_2 [[[1, 2, 3], [4]], [[5, 6::int]]] None 0 None
     = Inr ([[[1, 2, 3], [4, 0, 0]], [[5, 6, 0], [0, 0, 0]]], [[3, 1], [2, 0]])
   \<and> (\<exists>padded lens.
        pad_sequences_2 [[[1, 2, 3], [4]], [[5, 6::int]]] None 0 None = Inr (padded, lens)
        \<and> length (padded ! 1) = nat 2 \<and> length (lens ! 1) = nat 2)"
proof -
  have shape: "\<exists>padded lens.
        pad_sequences_2 [[[1, 2, 3], [4]], [[5, 6::int]]] None 0 None = Inr (padded, lens)
        \<and> length (padded ! 1) = nat 2 \<and> length (lens ! 1) = nat 2"
    using pad_sequences_2_shape[of "[[[1, 2, 3], [4]], [[5, 6::int]]]" None None 3 2 0]
    by fastforce
  have "pad_sequences_2 [[[1, 2, 3], [4]], [[5, 6::int]]] None 0 None
     = Inr ([[[1, 2, 3], [4, 0, 0]], [[5, 6, 0], [0, 0, 0]]], [[3, 1], [2, 0]])"
    by code_simp
  with shape show ?thesis by simp
qed

section \<open>Properties of chunk extraction\<close>

lemma get_chunks_docstring_example:
  "get_chunks [4, 5, 0, 3] [(''O'', 0), (''B-PER'', 4), (''I-PER'', 5), (''B-LOC'', 3)]
     = Inr [(''PER'', 0, 2), (''LOC'', 3, 4)]"
  by (simp add: get_chunks_def NONE_def invert_tags_def get_chunk_type_def split_def)

lemma chunks_between_append:
  "chunks_between lo hi (cs @ [(ty, s, e)]) = (chunks_between lo s cs \<and> s < e \<and> e \<le> hi)"
  by (induction cs arbitrary: lo) auto

lemma chunks_between_mono:
  "chunks_between lo hi cs \<Longrightarrow> hi \<le> hi' \<Longrightarrow> chunks_between lo hi' cs"
  by (induction cs arbitrary: lo) auto

lemma chunks_between_le: "chunks_between lo hi cs \<Longrightarrow> lo \<le> hi"
proof (induction cs arbitrary: lo)
  case Nil
  then show ?case by simp
next
  case (Cons c cs)
  obtain ty s e where c: "c = (ty, s, e)" by (cases c)
  with Cons.prems have "lo \<le> s" "s < e" "chunks_between e hi cs" by auto
  with Cons.IH[of e] show ?case by simp
qed

lemma covered_append: "covered (cs @ [(ty, s, e)]) = covered cs \<union> {s..<e}"
  by (auto simp: covered_def)

lemma covered_Nil: "covered [] = {}"
  by (simp add: covered_def)

lemma non_default_snoc:
  "{j. j < Suc (length pre) \<and> (pre @ [tok]) ! j \<noteq> d}
     = {j. j < length pre \<and> pre ! j \<noteq> d} \<union> (if tok \<noteq> d then {length pre} else {})"
  by (auto simp: nth_append less_Suc_eq)

lemma chunk_step_inv:
  assumes inv: "chunk_inv d pre st" and step: "chunk_step d m (length pre) tok st = Inr st'"
  shows "chunk_inv d (pre @ [tok]) st'"
proof -
  obtain chunks cur where st: "st = (chunks, cur)" by (cases st)
  let ?N = "{j. j < length pre \<and> pre ! j \<noteq> d}"
  show ?thesis
  proof (cases cur)
    case None
    from inv st None have cb: "chunks_between 0 (length pre) chunks"
      and cov: "covered chunks = ?N" by (simp_all add: chunk_inv_def)
    show ?thesis
    proof (cases "tok = d")
      case True
      with step st None have "st' = (chunks, None)" by simp
      moreover have "chunks_between 0 (Suc (length pre)) chunks"
        using cb by (rule chunks_between_mono) simp
      ultimately show ?thesis using True cov
        by (simp add: chunk_inv_def non_default_snoc)
    next
      case False
      with step st None obtain cls ty where "st' = (chunks, Some (ty, length pre))"
        by (auto split: sum.splits)
      then show ?thesis using False cb cov
        by (simp add: chunk_inv_def non_default_snoc)
    qed
  next
    case (Some a)
    obtain ty s where a: "a = (ty, s)" by (cases a)
    from inv st Some a have cb: "chunks_between 0 s chunks" and lt: "s < length pre"
      and cov: "covered chunks \<union> {s..<length pre} = ?N" by (simp_all add: chunk_inv_def)
    show ?thesis
    proof (cases "tok = d")
      case True
      with step st Some a have "st' = (chunks @ [(ty, s, length pre)], None)" by simp
      then show ?thesis using True cb lt cov
        by (simp add: chunk_inv_def non_default_snoc chunks_between_append covered_append)
    next
      case False
      with step st Some a obtain ty' where
        "st' = (chunks @ [(ty, s, length pre)], Some (ty', length pre)) \<or> st' = (chunks, Some (ty, s))"
        by (auto split: sum.splits if_splits)
      then show ?thesis
      proof
        assume "st' = (chunks @ [(ty, s, length pre)], Some (ty', length pre))"
        then show ?thesis using False cb lt cov
          by (simp add: chunk_inv_def non_default_snoc chunks_between_append covered_append)
      next
        assume "st' = (chunks, Some (ty, s))"
        moreover have "{s..<Suc (length pre)} = {s..<length pre} \<union> {length pre}"
          using lt by (auto simp: atLeastLessThanSuc)
        ultimately show ?thesis using False cb lt cov
          by (simp add: chunk_inv_def non_default_snoc Un_assoc[symmetric])
      qed
    qed
  qed
qed

lemma chunk_loop_inv:
  "chunk_inv d pre st \<Longrightarrow> chunk_loop d m (length pre) rest st = Inr st'
     \<Longrightarrow> chunk_inv d (pre @ rest) st'"
proof (induction rest arbitrary: pre st)
  case Nil
  then show ?case by simp
next
  case (Cons tok rest)
  from Cons.prems(2) obtain st1 where
    s1: "chunk_step d m (length pre) tok st = Inr st1" and
    l1: "chunk_loop d m (Suc (length pre)) rest st1 = Inr st'"
    by (auto split: sum.splits)
  have "chunk_inv d (pre @ [tok]) st1" by (rule chunk_step_inv[OF Cons.prems(1) s1])
  from Cons.IH[OF this] l1 show ?case by simp
qed

lemma get_chunks_inv:
  assumes "get_chunks seq tags = Inr chunks" and "map_of tags NONE = Some d"
  shows "chunks_between 0 (length seq) chunks
       \<and> covered chunks = {j. j < length seq \<and> seq ! j \<noteq> d}"
proof -
  from assms obtain cs cur where
    loop: "chunk_loop d (invert_tags tags) 0 seq ([], None) = Inr (cs, cur)"
    by (auto simp: get_chunks_def split: sum.splits)
  have "chunk_inv d [] ([], None)" by (simp add: chunk_inv_def covered_Nil)
  from chunk_loop_inv[OF this, of "invert_tags tags" seq "(cs, cur)"] loop
  have inv: "chunk_inv d seq (cs, cur)" by simp
  show ?thesis
  proof (cases cur)
    case None
    with assms loop have "chunks = cs" by (simp add: get_chunks_def)
    with inv None show ?thesis by (simp add: chunk_inv_def)
  next
    case (Some a)
    obtain ty s where a: "a = (ty, s)" by (cases a)
    with assms loop Some have "chunks = cs @ [(ty, s, length seq)]" by (simp add: get_chunks_def)
    with inv Some a show ?thesis
      by (simp add: chunk_inv_def chunks_between_append covered_append)
  qed
qed

lemma chunks_between_bounds:
  "chunks_between lo hi cs \<Longrightarrow> (ty, s, e) \<in> set cs \<Longrightarrow> lo \<le> s \<and> s < e \<and> e \<le> hi"
proof (induction cs arbitrary: lo)
  case Nil
  then show ?case by simp
next
  case (Cons c cs)
  obtain ty' s' e' where c: "c = (ty', s', e')" by (cases c)
  from Cons.prems c have cb: "lo \<le> s'" "s' < e'" "chunks_between e' hi cs" by auto
  show ?case
  proof (cases "(ty, s, e) = c")
    case True
    with c cb chunks_between_le[OF cb(3)] show ?thesis by auto
  next
    case False
    with Cons.prems have "(ty, s, e) \<in> set cs" by auto
    from Cons.IH[OF cb(3) this] cb show ?thesis by auto
  qed
qed

lemma chunks_between_pairwise:
  "chunks_between lo hi cs \<Longrightarrow> i < j \<Longrightarrow> j < length cs
     \<Longrightarrow> snd (snd (cs ! i)) \<le> fst (snd (cs ! j))"
proof (induction cs arbitrary: lo i j)
  case Nil
  then show ?case by simp
next
  case (Cons c cs)
  obtain ty' s' e' where c: "c = (ty', s', e')" by (cases c)
  from Cons.prems c have cb: "lo \<le> s'" "s' < e'" "chunks_between e' hi cs" by auto
  from Cons.prems obtain j' where j: "j = Suc j'" "j' < length cs" by (cases j) auto
  show ?case
  proof (cases i)
    case 0
    obtain ty s e where cj: "cs ! j' = (ty, s, e)" by (cases "cs ! j'")
    then have "(ty, s, e) \<in> set cs" using j(2) by (metis nth_mem)
    from chunks_between_bounds[OF cb(3) this] show ?thesis using 0 j c cj by simp
  next
    case (Suc i')
    with Cons.prems j have "i' < j'" by simp
    from Cons.IH[OF cb(3) this j(2)] show ?thesis using Suc j by simp
  qed
qed

text \<open>
  Claim C5 (chunk list invariant). When \<^verbatim>\<open>get_chunks\<close> returns a chunk list for a
  sequence (\<open>d\<close> being the id of the tag \<^verbatim>\<open>"O"\<close>): every chunk has \<open>start < end\<close>
  and ends within the sequence; a chunk that comes later in the list starts later, and not
  before the earlier one ends (ordered by start, no overlap); and the half-open spans
  together are exactly the set of positions whose tag id is not \<open>d\<close>.
\<close>

theorem get_chunks_invariant:
  assumes "get_chunks seq tags = Inr chunks" and "map_of tags NONE = Some d"
  shows "(\<forall>(ty, s, e)\<in>set chunks. s < e \<and> e \<le> length seq)
    \<and> (\<forall>i j. i < j \<and> j < length chunks \<longrightarrow>
          fst (snd (chunks ! i)) < fst (snd (chunks ! j))
        \<and> snd (snd (chunks ! i)) \<le> fst (snd (chunks ! j)))
    \<and> (\<Union>(ty, s, e)\<in>set chunks. {s..<e}) = {j. j < length seq \<and> seq ! j \<noteq> d}"
proof -
  from get_chunks_inv[OF assms] have
    cb: "chunks_between 0 (length seq) chunks" and
    cov: "covered chunks = {j. j < length seq \<and> seq ! j \<noteq> d}" by auto
  have a: "\<forall>(ty, s, e)\<in>set chunks. s < e \<and> e \<le> length seq"
    using chunks_between_bounds[OF cb] by auto
  have b: "fst (snd (chunks ! i)) < fst (snd (chunks ! j))
        \<and> snd (snd (chunks ! i)) \<le> fst (snd (chunks ! j))"
    if "i < j" "j < length chunks" for i j
  proof -
    obtain ty s e where ci: "chunks ! i = (ty, s, e)" by (cases "chunks ! i")
    have "(ty, s, e) \<in> set chunks" using that ci by (metis nth_mem less_trans)
    with a have "s < e" by auto
    with chunks_between_pairwise[OF cb that] ci show ?thesis by simp
  qed
  from a b cov show ?thesis unfolding covered_def by blast
qed

theorem get_chunks_invariant_witness:
  "get_chunks [1, 2, 0, 1] [(''O'', 0), (''B-PER'', 1), (''I-PER'', 2)]
      = Inr [(''PER'', 0, 2), (''PER'', 3, 4)]
   \<and> map_of [(''O'', 0), (''B-PER'', 1), (''I-PER'', 2)] NONE = Some (0::int)
   \<and> (\<Union>(ty, s, e)\<in>set [(''PER'', 0, 2), (''PER'', 3, 4::nat)]. {s..<e})
       = {j. j < length [1, 2, 0, 1::int] \<and> [1, 2, 0, 1::int] ! j \<noteq> 0}"
proof -
  let ?tags = "[(''O'', 0), (''B-PER'', 1), (''I-PER'', 2::int)]"
  have d: "map_of ?tags NONE = Some 0" by (simp add: NONE_def)
  have g: "get_chunks [1, 2, 0, 1] ?tags = Inr [(''PER'', 0, 2), (''PER'', 3, 4)]"
    by (simp add: get_chunks_def NONE_def invert_tags_def get_chunk_type_def split_def)
  from get_chunks_invariant[OF g d] g d show ?thesis by blast
qed


lemma get_chunks_finish:
  "map_of tags NONE = Some d \<Longrightarrow>
   get_chunks seq tags =
     (case chunk_loop d (invert_tags tags) 0 seq ([], None) of
        Inl e \<Rightarrow> Inl e | Inr st \<Rightarrow> Inr (finish_chunks (length seq) st))"
  by (auto simp: get_chunks_def split: sum.splits option.splits)

lemma chunk_loop_append:
  "chunk_loop d m i (xs @ ys) st =
     (case chunk_loop d m i xs st of
        Inl e \<Rightarrow> Inl e
      | Inr st' \<Rightarrow> chunk_loop d m (i + length xs) ys st')"
  by (induction xs arbitrary: i st) (simp_all split: sum.splits)

lemma chunk_step_default:
  "chunk_step d m i d (chunks, cur) = Inr (chunks @ close_open cur i, None)"
  by (cases cur) auto

lemma chunk_loop_default_closed:
  "\<forall>tok\<in>set seq. tok = d \<Longrightarrow> chunk_loop d m i seq (chunks, None) = Inr (chunks, None)"
  by (induction seq arbitrary: i) (simp_all add: chunk_step_default del: chunk_step.simps)

lemma chunk_loop_default:
  assumes "\<forall>tok\<in>set seq. tok = d"
  shows "chunk_loop d m i seq (chunks, cur) =
     Inr (if seq = [] then (chunks, cur) else (chunks @ close_open cur i, None))"
proof (cases seq)
  case Nil
  then show ?thesis by simp
next
  case (Cons tok rest)
  with assms have "tok = d" "\<forall>tok\<in>set rest. tok = d" by auto
  with Cons show ?thesis
    by (simp add: chunk_step_default chunk_loop_default_closed del: chunk_step.simps)
qed

lemma chunk_step_open:
  assumes "tok \<noteq> d" and "chunk_step d m i tok st = Inr st'"
  shows "\<exists>ty s. snd st' = Some (ty, s)"
proof -
  obtain chunks cur where "st = (chunks, cur)" by (cases st)
  with assms show ?thesis
    by (cases cur) (auto split: sum.splits if_splits)
qed

lemma chunk_step_begin:
  assumes "tok \<noteq> d" and "get_chunk_type tok m = Inr (''B'', ty)"
  shows "chunk_step d m i tok (chunks, cur) = Inr (chunks @ close_open cur i, Some (ty, i))"
  using assms by (cases cur) auto

lemma chunk_loop_inside:
  "\<forall>tok\<in>set seq. tok \<noteq> d \<and> get_chunk_type tok m = Inr (''I'', ty)
     \<Longrightarrow> chunk_loop d m i seq (chunks, Some (ty, s)) = Inr (chunks, Some (ty, s))"
  by (induction seq arbitrary: i) simp_all

lemma last_open_closes:
  assumes d: "map_of tags NONE = Some d" and ne: "seq \<noteq> []" and last: "last seq \<noteq> d"
    and g: "get_chunks seq tags = Inr cs"
  shows "cs \<noteq> [] \<and> snd (snd (last cs)) = length seq"
proof -
  from ne obtain pre where seq: "seq = pre @ [last seq]"
    by (metis append_butlast_last_id)
  from g d obtain st where loop: "chunk_loop d (invert_tags tags) 0 seq ([], None) = Inr st"
    and cs: "cs = finish_chunks (length seq) st"
    by (auto simp: get_chunks_finish split: sum.splits)
  from loop seq have
    "(case chunk_loop d (invert_tags tags) 0 pre ([], None) of
        Inl e \<Rightarrow> Inl e
      | Inr st0 \<Rightarrow> chunk_loop d (invert_tags tags) (0 + length pre) [last seq] st0) = Inr st"
    using chunk_loop_append[of d "invert_tags tags" 0 pre "[last seq]" "([], None)"] by simp
  then obtain st0 where
    "chunk_loop d (invert_tags tags) (length pre) [last seq] st0 = Inr st"
    by (cases "chunk_loop d (invert_tags tags) 0 pre ([], None)") auto
  then have "chunk_step d (invert_tags tags) (length pre) (last seq) st0 = Inr st"
    by (cases "chunk_step d (invert_tags tags) (length pre) (last seq) st0") simp_all
  from chunk_step_open[OF last this] obtain ty s where "snd st = Some (ty, s)" by auto
  then obtain chunks where "st = (chunks, Some (ty, s))" by (cases st) auto
  with cs show ?thesis by simp
qed


text \<open>
  Claim C2 (transitions and boundaries of the scan), \<open>d\<close> being the id of the tag
  \<^verbatim>\<open>"O"\<close>. A sequence whose ids all equal \<open>d\<close> gives the empty chunk list. When a
  chunk \<open>(ty, st)\<close> is open at position \<open>i\<close> and the token there is not \<open>d\<close> and decodes
  to a type different from \<open>ty\<close> or to the class \<^verbatim>\<open>"B"\<close>, the open chunk is closed as
  \<open>(ty, st, i)\<close> and a chunk of the decoded type is opened at \<open>i\<close>, and the scan goes on
  from there. A chunk still open after the scan is closed at \<open>len(seq)\<close>; so the last
  chunk of a sequence that ends in a tag other than \<^verbatim>\<open>"O"\<close> ends at \<open>len(seq)\<close>. The
  ids of \<^verbatim>\<open>["B-PER", "B-PER", "O"]\<close> give \<^verbatim>\<open>[("PER", 0, 1), ("PER", 1, 2)]\<close>.
\<close>

theorem get_chunks_transitions:
  assumes "map_of tags NONE = Some d"
  shows "((\<forall>tok\<in>set seq. tok = d) \<longrightarrow> get_chunks seq tags = Inr [])
    \<and> (tok \<noteq> d \<and> get_chunk_type tok idx_to_tag = Inr (cls, ty') \<and> (ty' \<noteq> ty \<or> cls = ''B'')
         \<longrightarrow> chunk_step d idx_to_tag i tok (chunks, Some (ty, st))
               = Inr (chunks @ [(ty, st, i)], Some (ty', i))
           \<and> chunk_loop d idx_to_tag i (tok # rest) (chunks, Some (ty, st))
               = chunk_loop d idx_to_tag (Suc i) rest (chunks @ [(ty, st, i)], Some (ty', i)))
    \<and> (chunk_loop d (invert_tags tags) 0 seq ([], None) = Inr (chunks, Some (ty, st))
         \<longrightarrow> get_chunks seq tags = Inr (chunks @ [(ty, st, length seq)]))
    \<and> (seq \<noteq> [] \<and> last seq \<noteq> d \<and> get_chunks seq tags = Inr cs
         \<longrightarrow> cs \<noteq> [] \<and> snd (snd (last cs)) = length seq)
    \<and> get_chunks [1, 1, 0] [(''O'', 0), (''B-PER'', 1), (''I-PER'', 2)]
         = Inr [(''PER'', 0, 1), (''PER'', 1, 2)]"
proof (intro conjI impI)
  assume "\<forall>tok\<in>set seq. tok = d"
  then show "get_chunks seq tags = Inr []"
    using assms by (simp add: get_chunks_def chunk_loop_default_closed)
next
  assume a: "tok \<noteq> d \<and> get_chunk_type tok idx_to_tag = Inr (cls, ty') \<and> (ty' \<noteq> ty \<or> cls = ''B'')"
  then show s: "chunk_step d idx_to_tag i tok (chunks, Some (ty, st))
               = Inr (chunks @ [(ty, st, i)], Some (ty', i))"
    by auto
  show "chunk_loop d idx_to_tag i (tok # rest) (chunks, Some (ty, st))
               = chunk_loop d idx_to_tag (Suc i) rest (chunks @ [(ty, st, i)], Some (ty', i))"
    using s by (simp del: chunk_step.simps)
next
  assume "chunk_loop d (invert_tags tags) 0 seq ([], None) = Inr (chunks, Some (ty, st))"
  then show "get_chunks seq tags = Inr (chunks @ [(ty, st, length seq)])"
    using assms by (simp add: get_chunks_def)
next
  assume a: "seq \<noteq> [] \<and> last seq \<noteq> d \<and> get_chunks seq tags = Inr cs"
  then show "cs \<noteq> []" using last_open_closes[OF assms, of seq cs] by simp
  from a show "snd (snd (last cs)) = length seq"
    using last_open_closes[OF assms, of seq cs] by simp
next
  show "get_chunks [1, 1, 0] [(''O'', 0), (''B-PER'', 1), (''I-PER'', 2)]
         = Inr [(''PER'', 0, 1), (''PER'', 1, 2)]"
    by (simp add: get_chunks_def NONE_def invert_tags_def get_chunk_type_def split_def)
qed

theorem get_chunks_transitions_witness:
  "map_of [(''O'', 0), (''B-PER'', 1), (''I-PER'', 2), (''B-LOC'', 3)] NONE = Some (0::int)
   \<and> get_chunks [0, 0] [(''O'', 0), (''B-PER'', 1), (''I-PER'', 2), (''B-LOC'', 3)] = Inr []
   \<and> get_chunk_type 3 (invert_tags [(''O'', 0), (''B-PER'', 1), (''I-PER'', 2), (''B-LOC'', 3)])
       = Inr (''B'', ''LOC'')
   \<and> chunk_step 0 (invert_tags [(''O'', 0), (''B-PER'', 1), (''I-PER'', 2), (''B-LOC'', 3)]) 2 3
        ([], Some (''PER'', 0)) = Inr ([(''PER'', 0, 2)], Some (''LOC'', 2))
   \<and> chunk_loop 0 (invert_tags [(''O'', 0), (''B-PER'', 1), (''I-PER'', 2), (''B-LOC'', 3)]) 0
        [1, 2, 3] ([], None) = Inr ([(''PER'', 0, 2)], Some (''LOC'', 2))
   \<and> get_chunks [1, 2, 3] [(''O'', 0), (''B-PER'', 1), (''I-PER'', 2), (''B-LOC'', 3)]
       = Inr [(''PER'', 0, 2), (''LOC'', 2, 3)]
   \<and> last [1, 2, 3] \<noteq> (0::int)
   \<and> snd (snd (last [(''PER'', 0::nat, 2::nat), (''LOC'', 2, 3)])) = length [1, 2, 3::int]"
proof -
  let ?tags = "[(''O'', 0), (''B-PER'', 1), (''I-PER'', 2), (''B-LOC'', 3::int)]"
  have d: "map_of ?tags NONE = Some 0" by (simp add: NONE_def)
  have dec: "get_chunk_type 3 (invert_tags ?tags) = Inr (''B'', ''LOC'')"
    by (simp add: invert_tags_def get_chunk_type_def split_def)
  have loop: "chunk_loop 0 (invert_tags ?tags) 0 [1, 2, 3] ([], None)
      = Inr ([(''PER'', 0, 2)], Some (''LOC'', 2))"
    by (simp add: invert_tags_def get_chunk_type_def split_def)
  note t = get_chunks_transitions[OF d, where seq = "[0, 0]" and tok = 3
      and idx_to_tag = "invert_tags ?tags" and cls = "''B''" and ty' = "''LOC''"
      and ty = "''PER''" and i = 2 and chunks = "[]" and st = 0 and rest = "[]" and cs = "[]"]
  note u = get_chunks_transitions[OF d, where seq = "[1, 2, 3]" and tok = 3
      and idx_to_tag = "invert_tags ?tags" and cls = "''B''" and ty' = "''LOC''"
      and ty = "''LOC''" and i = 2 and chunks = "[(''PER'', 0, 2)]" and st = 2
      and rest = "[]" and cs = "[(''PER'', 0, 2), (''LOC'', 2, 3)]"]
  have e: "get_chunks [0, 0] ?tags = Inr []"
    using t[THEN conjunct1] by simp
  have s: "chunk_step 0 (invert_tags ?tags) 2 3 ([], Some (''PER'', 0))
      = Inr ([(''PER'', 0, 2)], Some (''LOC'', 2))"
    using t[THEN conjunct2, THEN conjunct1] dec by (simp del: chunk_step.simps chunk_loop.simps)
  have f: "get_chunks [1, 2, 3] ?tags = Inr [(''PER'', 0, 2), (''LOC'', 2, 3)]"
    using u[THEN conjunct2, THEN conjunct2, THEN conjunct1, THEN mp, OF loop] by simp
  have l: "last [1, 2, 3] \<noteq> (0::int)" by simp
  have g: "snd (snd (last [(''PER'', 0::nat, 2::nat), (''LOC'', 2, 3)])) = length [1, 2, 3::int]"
    using u[THEN conjunct2, THEN conjunct2, THEN conjunct2, THEN conjunct1] f l by simp
  from d e dec s loop f l g show ?thesis
    by (simp only: simp_thms)
qed

section \<open>The round trip of chunk extraction\<close>

lemma split_scan_no_sep:
  "c \<notin> set s \<Longrightarrow> split_scan [c] cur s = [cur @ s]"
  by (induction s arbitrary: cur) auto

lemma split_prefixed:
  assumes "CHR ''-'' \<notin> set ty" and "CHR ''-'' \<notin> set p"
  shows "split (p @ ''-'' @ ty) ''-'' = Inr [p, ty]"
proof -
  have "split_scan ''-'' cur (p @ ''-'' @ ty) = [cur @ p, ty]" for cur
    using assms(2)
  proof (induction p arbitrary: cur)
    case Nil
    then show ?case using assms(1) by (simp add: split_scan_no_sep)
  next
    case (Cons a p)
    then show ?case by auto
  qed
  from this[of "[]"] show ?thesis by (simp add: split_def)
qed

lemma invert_tags_fold_other:
  "idx \<notin> snd ` set tags \<Longrightarrow> fold (\<lambda>(tag, idx) m. m(idx \<mapsto> tag)) tags m idx = m idx"
  by (induction tags arbitrary: m) auto

lemma invert_tags_fold_member:
  "distinct (map snd tags) \<Longrightarrow> (name, idx) \<in> set tags
     \<Longrightarrow> fold (\<lambda>(tag, idx) m. m(idx \<mapsto> tag)) tags m idx = Some name"
proof (induction tags arbitrary: m)
  case Nil
  then show ?case by simp
next
  case (Cons a tags)
  show ?case
  proof (cases "a = (name, idx)")
    case True
    with Cons.prems(1) have "idx \<notin> snd ` set tags" by auto
    then have "fold (\<lambda>(tag, idx) m. m(idx \<mapsto> tag)) tags (m(idx \<mapsto> name)) idx
        = (m(idx \<mapsto> name)) idx"
      by (rule invert_tags_fold_other)
    then have "fold (\<lambda>(tag, idx) m. m(idx \<mapsto> tag)) ((name, idx) # tags) m idx = Some name"
      by (simp only: fold_simps prod.case fun_upd_same)
    with True show ?thesis by (simp only:)
  next
    case False
    with Cons.prems have "distinct (map snd tags)" "(name, idx) \<in> set tags" by auto
    from Cons.IH[OF this] show ?thesis by simp
  qed
qed

lemma invert_tags_lookup:
  assumes "distinct (map snd tags)" and "map_of tags name = Some idx"
  shows "invert_tags tags idx = Some name"
  unfolding invert_tags_def
  using assms(1) map_of_SomeD[OF assms(2)] by (rule invert_tags_fold_member)

lemma distinct_ids:
  assumes "distinct (map snd tags)" and "map_of tags n1 = Some i1" and "map_of tags n2 = Some i2"
    and "n1 \<noteq> n2"
  shows "i1 \<noteq> i2"
proof
  assume "i1 = i2"
  from assms(1) have "inj_on snd (set tags)" by (simp add: distinct_map)
  moreover have "(n1, i1) \<in> set tags" "(n2, i2) \<in> set tags"
    using assms(2,3) by (auto dest: map_of_SomeD)
  ultimately have "(n1, i1) = (n2, i2)"
    using \<open>i1 = i2\<close> inj_onD[of snd "set tags" "(n1, i1)" "(n2, i2)"] by simp
  with assms(4) show False by simp
qed

lemma decode_begin:
  assumes "distinct (map snd tags)" and "map_of tags NONE = Some d"
    and "map_of tags (''B-'' @ ty) = Some u" and "CHR ''-'' \<notin> set ty"
  shows "u \<noteq> d \<and> get_chunk_type u (invert_tags tags) = Inr (''B'', ty)"
proof -
  have "u \<noteq> d" using distinct_ids[OF assms(1) assms(3) assms(2)] by (simp add: NONE_def)
  moreover have "split (''B'' @ ''-'' @ ty) ''-'' = Inr [''B'', ty]"
    using assms(4) by (intro split_prefixed) simp_all
  ultimately show ?thesis
    using invert_tags_lookup[OF assms(1) assms(3)] by (simp add: get_chunk_type_def)
qed

lemma decode_inside:
  assumes "distinct (map snd tags)" and "map_of tags NONE = Some d"
    and "map_of tags (''I-'' @ ty) = Some u" and "CHR ''-'' \<notin> set ty"
  shows "u \<noteq> d \<and> get_chunk_type u (invert_tags tags) = Inr (''I'', ty)"
proof -
  have "u \<noteq> d" using distinct_ids[OF assms(1) assms(3) assms(2)] by (simp add: NONE_def)
  moreover have "split (''I'' @ ''-'' @ ty) ''-'' = Inr [''I'', ty]"
    using assms(4) by (intro split_prefixed) simp_all
  ultimately show ?thesis
    using invert_tags_lookup[OF assms(1) assms(3)] by (simp add: get_chunk_type_def)
qed

lemma list_all2_replicateD:
  "list_all2 P (replicate k x) us \<Longrightarrow> length us = k \<and> (\<forall>u\<in>set us. P x u)"
  by (induction k arbitrary: us) (auto simp: list_all2_Cons1)

lemma length_bio_encode_from:
  "chunks_between lo n cs \<Longrightarrow> length (bio_encode_from lo cs n) = n - lo"
proof (induction cs arbitrary: lo)
  case Nil
  then show ?case by simp
next
  case (Cons c cs)
  obtain ty s e where c: "c = (ty, s, e)" by (cases c)
  with Cons.prems have cb: "lo \<le> s" "s < e" "chunks_between e n cs" by auto
  have "e \<le> n" using chunks_between_le[OF cb(3)] .
  with Cons.IH[OF cb(3)] cb c show ?case by simp
qed

lemma roundtrip_from:
  assumes dist: "distinct (map snd tags)" and d: "map_of tags NONE = Some d"
  shows "chunks_between lo n cs \<Longrightarrow> \<forall>(ty, s, e)\<in>set cs. CHR ''-'' \<notin> set ty
    \<Longrightarrow> list_all2 (\<lambda>name idx. map_of tags name = Some idx) (bio_encode_from lo cs n) ids
    \<Longrightarrow> \<exists>st'. chunk_loop d (invert_tags tags) lo ids (acc, cur) = Inr st'
             \<and> finish_chunks n st' = acc @ close_open cur lo @ cs"
proof (induction cs arbitrary: lo ids acc cur)
  case Nil
  from Nil.prems(3) have len: "length ids = n - lo"
    and all: "\<forall>u\<in>set ids. map_of tags ''O'' = Some u"
    using list_all2_replicateD[of _ "n - lo" "''O''" ids] by auto
  from all d have alld: "\<forall>u\<in>set ids. u = d" by (auto simp: NONE_def)
  from Nil.prems(1) have "lo \<le> n" by simp
  show ?case
  proof (cases "ids = []")
    case True
    with len \<open>lo \<le> n\<close> have "n = lo" by simp
    with True show ?thesis by simp
  next
    case False
    then show ?thesis by (simp add: chunk_loop_default[OF alld])
  qed
next
  case (Cons c cs)
  obtain ty s e where c: "c = (ty, s, e)" by (cases c)
  with Cons.prems(1) have cb: "lo \<le> s" "s < e" "chunks_between e n cs" by auto
  from Cons.prems(2) c have ty: "CHR ''-'' \<notin> set ty"
    and rest_ty: "\<forall>(ty, s, e)\<in>set cs. CHR ''-'' \<notin> set ty" by auto
  from Cons.prems(3) c obtain us b vs rest where ids: "ids = us @ [b] @ vs @ rest"
    and us: "list_all2 (\<lambda>name idx. map_of tags name = Some idx) (replicate (s - lo) ''O'') us"
    and b: "map_of tags (''B-'' @ ty) = Some b"
    and vs: "list_all2 (\<lambda>name idx. map_of tags name = Some idx)
               (replicate (e - s - 1) (''I-'' @ ty)) vs"
    and rest: "list_all2 (\<lambda>name idx. map_of tags name = Some idx) (bio_encode_from e cs n) rest"
    by (auto simp: list_all2_append1 list_all2_Cons1)
  from us have lus: "length us = s - lo" and aus: "\<forall>u\<in>set us. map_of tags ''O'' = Some u"
    using list_all2_replicateD[of _ "s - lo" "''O''" us] by auto
  from aus d have usd: "\<forall>u\<in>set us. u = d" by (auto simp: NONE_def)
  from vs have lvs: "length vs = e - s - 1"
    and avs: "\<forall>u\<in>set vs. map_of tags (''I-'' @ ty) = Some u"
    using list_all2_replicateD[of _ "e - s - 1" "''I-'' @ ty" vs] by auto
  have vsI: "\<forall>u\<in>set vs. u \<noteq> d \<and> get_chunk_type u (invert_tags tags) = Inr (''I'', ty)"
    using avs decode_inside[OF dist d _ ty] by blast
  have bB: "b \<noteq> d" "get_chunk_type b (invert_tags tags) = Inr (''B'', ty)"
    using decode_begin[OF dist d b ty] by auto
  let ?m = "invert_tags tags"
  have pos_s: "lo + length us = s" using lus cb(1) by simp
  have step1: "chunk_loop d ?m lo us (acc, cur)
      = Inr (if us = [] then (acc, cur) else (acc @ close_open cur lo, None))"
    by (rule chunk_loop_default[OF usd])
  have step2: "chunk_loop d ?m lo (us @ [b]) (acc, cur)
      = Inr (acc @ close_open cur lo, Some (ty, s))"
  proof (cases "us = []")
    case True
    with lus cb(1) have "s = lo" by simp
    with True show ?thesis
      by (simp add: chunk_step_begin[OF bB] del: chunk_step.simps)
  next
    case False
    then show ?thesis
      using pos_s
      by (simp add: chunk_loop_append step1 chunk_step_begin[OF bB] del: chunk_step.simps)
  qed
  have step3: "chunk_loop d ?m lo ((us @ [b]) @ vs) (acc, cur)
      = Inr (acc @ close_open cur lo, Some (ty, s))"
    by (simp only: chunk_loop_append[of d ?m lo "us @ [b]" vs] step2 sum.case
        chunk_loop_inside[OF vsI])
  have pos_e: "lo + length ((us @ [b]) @ vs) = e"
    using lus lvs cb by simp
  from Cons.IH[OF cb(3) rest_ty rest, of "acc @ close_open cur lo" "Some (ty, s)"]
  obtain st' where
    l: "chunk_loop d ?m e rest (acc @ close_open cur lo, Some (ty, s)) = Inr st'" and
    f: "finish_chunks n st' = (acc @ close_open cur lo) @ close_open (Some (ty, s)) e @ cs"
    by blast
  have "chunk_loop d ?m lo ids (acc, cur) = Inr st'"
  proof -
    have "ids = ((us @ [b]) @ vs) @ rest" using ids by simp
    then show ?thesis
      by (simp only: chunk_loop_append[of d ?m lo "(us @ [b]) @ vs" rest] step3 sum.case pos_e l)
  qed
  moreover have "finish_chunks n st' = acc @ close_open cur lo @ c # cs"
    using f c by simp
  ultimately show ?case by blast
qed

text \<open>
  Claim C3 (round trip), as the code has it. For every list of chunks with
  \<open>start < end\<close>, in order and not overlapping within a sequence of length \<open>n\<close>, whose
  types contain no \<^verbatim>\<open>'-'\<close>: take the tag names with \<^verbatim>\<open>B-\<close> at each chunk start,
  \<^verbatim>\<open>I-\<close> inside the chunks and \<^verbatim>\<open>"O"\<close> elsewhere, and any sequence of the ids those
  names have in a dictionary that gives different names different ids; then
  \<^verbatim>\<open>get_chunks\<close> returns exactly the chunk list. The type of a tag is the text after
  its last \<^verbatim>\<open>'-'\<close>, so a type with a \<^verbatim>\<open>'-'\<close> in it does not come back: see the
  counterexample below.
\<close>

theorem get_chunks_roundtrip:
  assumes "chunks_between 0 n chunks"
    and "\<forall>(ty, s, e)\<in>set chunks. CHR ''-'' \<notin> set ty"
    and "distinct (map snd tags)"
    and "map_of tags NONE = Some d"
    and "list_all2 (\<lambda>name idx. map_of tags name = Some idx) (bio_encode chunks n) seq"
  shows "get_chunks seq tags = Inr chunks"
proof -
  from assms(5) have "length seq = length (bio_encode chunks n)"
    by (simp add: list_all2_lengthD)
  then have len: "length seq = n"
    using length_bio_encode_from[OF assms(1)] by (simp add: bio_encode_def)
  from roundtrip_from[OF assms(3,4) assms(1,2), of seq "[]" None] assms(5)
  obtain st' where "chunk_loop d (invert_tags tags) 0 seq ([], None) = Inr st'"
    and "finish_chunks n st' = chunks"
    by (auto simp: bio_encode_def)
  then show ?thesis using len by (simp add: get_chunks_finish[OF assms(4)])
qed


theorem get_chunks_roundtrip_witness:
  "chunks_between 0 5 [(''PER'', 0, 2), (''LOC'', 3, 4)]
   \<and> CHR ''-'' \<notin> set ''PER'' \<and> CHR ''-'' \<notin> set ''LOC''
   \<and> distinct (map snd [(''O'', 0::int), (''B-PER'', 1), (''I-PER'', 2), (''B-LOC'', 3), (''I-LOC'', 4)])
   \<and> map_of [(''O'', 0::int), (''B-PER'', 1), (''I-PER'', 2), (''B-LOC'', 3), (''I-LOC'', 4)] NONE
       = Some 0
   \<and> bio_encode [(''PER'', 0, 2), (''LOC'', 3, 4)] 5 = [''B-PER'', ''I-PER'', ''O'', ''B-LOC'', ''O'']
   \<and> get_chunks [1, 2, 0, 3, 0]
        [(''O'', 0), (''B-PER'', 1), (''I-PER'', 2), (''B-LOC'', 3), (''I-LOC'', 4)]
       = Inr [(''PER'', 0, 2), (''LOC'', 3, 4)]"
  using get_chunks_roundtrip[of 5 "[(''PER'', 0, 2), (''LOC'', 3, 4)]"
      "[(''O'', 0), (''B-PER'', 1), (''I-PER'', 2), (''B-LOC'', 3), (''I-LOC'', 4)]" 0
      "[1, 2, 0, 3, 0]"]
  by (simp add: bio_encode_def NONE_def)

theorem get_chunks_roundtrip_counterexample:
  "chunks_between 0 1 [(''A-B'', 0, 1)]
   \<and> distinct (map snd [(''O'', 0::int), (''B-A-B'', 1), (''I-A-B'', 2)])
   \<and> map_of [(''O'', 0::int), (''B-A-B'', 1), (''I-A-B'', 2)] NONE = Some 0
   \<and> bio_encode [(''A-B'', 0, 1)] 1 = [''B-A-B'']
   \<and> list_all2 (\<lambda>name idx. map_of [(''O'', 0::int), (''B-A-B'', 1), (''I-A-B'', 2)] name = Some idx)
        (bio_encode [(''A-B'', 0, 1)] 1) [1]
   \<and> get_chunks [1] [(''O'', 0), (''B-A-B'', 1), (''I-A-B'', 2)] = Inr [(''B'', 0, 1)]
   \<and> get_chunks [1] [(''O'', 0), (''B-A-B'', 1), (''I-A-B'', 2)] \<noteq> Inr [(''A-B'', 0, 1)]"
  by (simp add: bio_encode_def NONE_def get_chunks_def invert_tags_def get_chunk_type_def
      split_def)

section \<open>Properties of the processor\<close>

lemma python3_examples:
  "float_parses python3 ''3.14'' \<and> float_parses python3 '' -1_0.5e+3 ''
   \<and> float_parses python3 ''NaN'' \<and> \<not> float_parses python3 ''abc123''
   \<and> \<not> float_parses python3 ''12,345'' \<and> \<not> float_parses python3 ''1__0''
   \<and> numeric_defined python3 (char_of (189::nat))"
  by code_simp

lemma drop_sign_split:
  "\<exists>sign. s = sign @ drop_sign s \<and> (sign = [] \<or> sign = ''+'' \<or> sign = ''-'')"
  by (cases s) (auto simp: drop_sign_def)

lemma drop_sign_signed:
  assumes "sign = [] \<or> sign = ''+'' \<or> sign = ''-''" and "r \<noteq> []" and "is_ascii_digit (hd r)"
  shows "drop_sign (sign @ r) = r"
proof -
  from assms(2) obtain c r' where r: "r = c # r'" by (cases r) auto
  with assms(3) have "c \<noteq> CHR ''+''" "c \<noteq> CHR ''-''" by (auto simp: is_ascii_digit_def)
  with assms(1) r show ?thesis by (auto simp: drop_sign_def)
qed

lemma not_digit_comma: "\<not> is_ascii_digit CHR '',''"
  by (simp add: is_ascii_digit_def)

lemma not_digit_newline: "\<not> is_ascii_digit (CHR 0x0A)"
  by (simp add: is_ascii_digit_def)

lemma re_match_of_pattern:
  assumes sign: "sign = [] \<or> sign = ''+'' \<or> sign = ''-''"
    and ds1: "ds1 \<noteq> []" "list_all is_ascii_digit ds1"
    and ds2: "ds2 \<noteq> []" "list_all is_ascii_digit ds2"
    and tl: "s4 = [] \<or> s4 = [CHR 0x0A]"
  shows "re_match (sign @ ds1 @ '','' @ ds2 @ s4)"
proof -
  have d1: "\<forall>x\<in>set ds1. is_ascii_digit x" and d2: "\<forall>x\<in>set ds2. is_ascii_digit x"
    using ds1(2) ds2(2) by (simp_all add: list_all_iff)
  have hd1: "is_ascii_digit (hd (ds1 @ '','' @ ds2 @ s4))"
    using ds1(1) d1 by (cases ds1) auto
  have s1: "drop_sign (sign @ ds1 @ CHR '','' # ds2 @ s4) = ds1 @ CHR '','' # ds2 @ s4"
    using drop_sign_signed[OF sign _ hd1] ds1(1) by simp
  have t1: "takeWhile is_ascii_digit (ds1 @ CHR '','' # ds2 @ s4) = ds1"
    using d1 by (simp add: takeWhile_append2 not_digit_comma)
  have r1: "dropWhile is_ascii_digit (ds1 @ CHR '','' # ds2 @ s4) = CHR '','' # ds2 @ s4"
    using d1 by (simp add: dropWhile_append2 not_digit_comma)
  have s4nd: "takeWhile is_ascii_digit s4 = []" "dropWhile is_ascii_digit s4 = s4"
    using tl by (auto simp: not_digit_newline)
  have t2: "takeWhile is_ascii_digit (ds2 @ s4) = ds2"
    using d2 s4nd by (simp add: takeWhile_append2)
  have r2: "dropWhile is_ascii_digit (ds2 @ s4) = s4"
    using d2 s4nd by (simp add: dropWhile_append2)
  have "re_match (sign @ ds1 @ CHR '','' # ds2 @ s4)
      = (ds1 \<noteq> [] \<and> ds2 \<noteq> [] \<and> (s4 = [] \<or> s4 = [CHR 0x0A]))"
    by (simp only: re_match_def s1 Let_def t1 r1 list.case t2 r2 simp_thms)
  with ds1(1) ds2(1) tl show ?thesis by simp
qed

lemma pattern_of_re_match:
  assumes "re_match s"
  shows "\<exists>sign ds1 ds2 s4. s = sign @ ds1 @ '','' @ ds2 @ s4
        \<and> (sign = [] \<or> sign = ''+'' \<or> sign = ''-'')
        \<and> ds1 \<noteq> [] \<and> list_all is_ascii_digit ds1
        \<and> ds2 \<noteq> [] \<and> list_all is_ascii_digit ds2
        \<and> (s4 = [] \<or> s4 = [CHR 0x0A])"
proof -
  obtain sign where sg: "s = sign @ drop_sign s" "sign = [] \<or> sign = ''+'' \<or> sign = ''-''"
    using drop_sign_split by blast
  define s1 where "s1 = drop_sign s"
  define ds1 where "ds1 = takeWhile is_ascii_digit s1"
  define s2 where "s2 = dropWhile is_ascii_digit s1"
  from assms have ne1: "ds1 \<noteq> []"
    and c2: "(case s2 of [] \<Rightarrow> False
          | c # s3 \<Rightarrow> c = CHR '','' \<and> takeWhile is_ascii_digit s3 \<noteq> [] \<and>
              (let s4 = dropWhile is_ascii_digit s3 in s4 = [] \<or> s4 = [CHR 0x0A]))"
    by (simp_all add: re_match_def Let_def s1_def ds1_def s2_def)
  from c2 obtain s3 where s2: "s2 = CHR '','' # s3"
    and ne2: "takeWhile is_ascii_digit s3 \<noteq> []"
    and tl: "dropWhile is_ascii_digit s3 = [] \<or> dropWhile is_ascii_digit s3 = [CHR 0x0A]"
    by (cases s2) (auto simp: Let_def)
  define ds2 where "ds2 = takeWhile is_ascii_digit s3"
  define s4 where "s4 = dropWhile is_ascii_digit s3"
  have "s1 = ds1 @ s2" by (simp add: ds1_def s2_def)
  moreover have "s3 = ds2 @ s4" by (simp add: ds2_def s4_def)
  ultimately have "s = sign @ ds1 @ '','' @ ds2 @ s4"
    using sg(1) s2 by (simp add: s1_def)
  moreover have "list_all is_ascii_digit ds1" "list_all is_ascii_digit ds2"
    by (auto simp: ds1_def ds2_def list_all_iff dest: set_takeWhileD)
  ultimately show ?thesis
    using sg(2) ne1 ne2 tl unfolding ds2_def[symmetric] s4_def[symmetric] by blast
qed

lemma re_match_iff:
  "re_match s \<longleftrightarrow> comma_number s \<or> (\<exists>t. s = t @ [CHR 0x0A] \<and> comma_number t)"
proof
  assume "re_match s"
  from pattern_of_re_match[OF this] obtain sign ds1 ds2 s4 where
    s: "s = sign @ ds1 @ '','' @ ds2 @ s4"
    and p: "sign = [] \<or> sign = ''+'' \<or> sign = ''-''"
      "ds1 \<noteq> []" "list_all is_ascii_digit ds1" "ds2 \<noteq> []" "list_all is_ascii_digit ds2"
    and tl: "s4 = [] \<or> s4 = [CHR 0x0A]"
    by blast
  have cn: "comma_number (sign @ ds1 @ '','' @ ds2)"
    unfolding comma_number_def using p by blast
  from tl show "comma_number s \<or> (\<exists>t. s = t @ [CHR 0x0A] \<and> comma_number t)"
  proof
    assume "s4 = []"
    with s cn show ?thesis by simp
  next
    assume "s4 = [CHR 0x0A]"
    with s have "s = (sign @ ds1 @ '','' @ ds2) @ [CHR 0x0A]" by simp
    with cn show ?thesis by blast
  qed
next
  assume "comma_number s \<or> (\<exists>t. s = t @ [CHR 0x0A] \<and> comma_number t)"
  then show "re_match s"
  proof
    assume "comma_number s"
    then obtain sign ds1 ds2 where "s = sign @ ds1 @ '','' @ ds2"
      and p: "sign = [] \<or> sign = ''+'' \<or> sign = ''-''"
      "ds1 \<noteq> []" "list_all is_ascii_digit ds1" "ds2 \<noteq> []" "list_all is_ascii_digit ds2"
      unfolding comma_number_def by blast
    then show ?thesis using re_match_of_pattern[OF p, of "[]"] by simp
  next
    assume "\<exists>t. s = t @ [CHR 0x0A] \<and> comma_number t"
    then obtain t where t: "s = t @ [CHR 0x0A]" "comma_number t" by blast
    from t(2) obtain sign ds1 ds2 where "t = sign @ ds1 @ '','' @ ds2"
      and p: "sign = [] \<or> sign = ''+'' \<or> sign = ''-''"
      "ds1 \<noteq> []" "list_all is_ascii_digit ds1" "ds2 \<noteq> []" "list_all is_ascii_digit ds2"
      unfolding comma_number_def by blast
    with t(1) have "s = sign @ ds1 @ '','' @ ds2 @ [CHR 0x0A]" by simp
    then show ?thesis using re_match_of_pattern[OF p, of "[CHR 0x0A]"] by simp
  qed
qed

lemma comma_number_last:
  assumes "comma_number s"
  shows "s \<noteq> [] \<and> is_ascii_digit (last s)"
proof -
  from assms obtain sign ds1 ds2 where s: "s = sign @ ds1 @ '','' @ ds2"
    and d: "ds2 \<noteq> []" "list_all is_ascii_digit ds2"
    unfolding comma_number_def by auto
  from d have "is_ascii_digit (last ds2)" by (simp add: list_all_iff)
  with s d(1) show ?thesis by simp
qed

text \<open>
  Claim C6 (numeric classification), as the code has it. For every string \<open>s\<close>,
  \<^verbatim>\<open>is_digit(s)\<close> is true exactly when \<^verbatim>\<open>float(s)\<close> parses, or \<open>s\<close> is one character
  with a numeric value, or \<open>s\<close> is an optional sign, one or more digits, a comma and one
  or more digits, or \<open>s\<close> is such a string followed by one newline. With the library
  instance \<open>python3\<close>, \<^verbatim>\<open>"3.14"\<close>, \<^verbatim>\<open>"12,345"\<close> and the character one half are
  numeric and \<^verbatim>\<open>"abc123"\<close> is not.
\<close>

theorem is_digit_iff:
  "(is_digit py s \<longleftrightarrow>
      float_parses py s \<or> (\<exists>c. s = [c] \<and> numeric_defined py c)
      \<or> comma_number s \<or> (\<exists>t. s = t @ [CHR 0x0A] \<and> comma_number t))
   \<and> is_digit python3 ''3.14'' \<and> is_digit python3 ''12,345''
   \<and> is_digit python3 [char_of (189::nat)] \<and> \<not> is_digit python3 ''abc123''"
proof -
  have one: "(case s of [] \<Rightarrow> False | [c] \<Rightarrow> numeric_defined py c | c # a # list \<Rightarrow> False)
      \<longleftrightarrow> (\<exists>c. s = [c] \<and> numeric_defined py c)"
    by (auto split: list.splits)
  have "is_digit py s \<longleftrightarrow>
      float_parses py s \<or> (\<exists>c. s = [c] \<and> numeric_defined py c)
      \<or> comma_number s \<or> (\<exists>t. s = t @ [CHR 0x0A] \<and> comma_number t)"
    unfolding is_digit_def one re_match_iff by auto
  moreover have "is_digit python3 ''3.14''" by code_simp
  moreover have "is_digit python3 ''12,345''" by code_simp
  moreover have "is_digit python3 [char_of (189::nat)]" by code_simp
  moreover have "\<not> is_digit python3 ''abc123''" by code_simp
  ultimately show ?thesis by blast
qed

theorem is_digit_iff_witness:
  "comma_number ''+7,25'' \<and> is_digit python3 ''+7,25''"
proof -
  have "''+7,25'' = ''+'' @ ''7'' @ '','' @ ''25''" by simp
  moreover have "list_all is_ascii_digit ''7''" "list_all is_ascii_digit ''25''"
    by (simp_all add: is_ascii_digit_def)
  ultimately have c: "comma_number ''+7,25''"
    unfolding comma_number_def by blast
  with is_digit_iff[of python3 "''+7,25''"] show ?thesis by blast
qed

text \<open>
  The string \<^verbatim>\<open>"1,2\n"\<close> is classified as numeric, and none of the three conditions
  of the claim holds for it: \<^verbatim>\<open>$\<close> matches before the newline that ends it.
\<close>

theorem is_digit_counterexample:
  "is_digit python3 [CHR ''1'', CHR '','', CHR ''2'', CHR 0x0A]
   \<and> \<not> float_parses python3 [CHR ''1'', CHR '','', CHR ''2'', CHR 0x0A]
   \<and> length [CHR ''1'', CHR '','', CHR ''2'', CHR 0x0A] \<noteq> 1
   \<and> \<not> comma_number [CHR ''1'', CHR '','', CHR ''2'', CHR 0x0A]"
proof -
  have "is_digit python3 [CHR ''1'', CHR '','', CHR ''2'', CHR 0x0A]" by code_simp
  moreover have "\<not> float_parses python3 [CHR ''1'', CHR '','', CHR ''2'', CHR 0x0A]"
    by code_simp
  moreover have "\<not> comma_number [CHR ''1'', CHR '','', CHR ''2'', CHR 0x0A]"
    using comma_number_last[of "[CHR ''1'', CHR '','', CHR ''2'', CHR 0x0A]"]
    by (auto simp: is_ascii_digit_def)
  ultimately show ?thesis by simp
qed

text \<open>
  Claim C7 (unknown tokens). For a processor with word vocabulary \<open>v\<close> and a token whose
  processed form (lowercased if configured, replaced by \<^verbatim>\<open><NUM>\<close> if numeric) is not
  in \<open>v\<close>: \<^verbatim>\<open>fit\<close> raises \<^verbatim>\<open>Exception("Unknown key is not allowed.")\<close> when
  \<^verbatim>\<open>allow_unk\<close> is off, and returns the id of \<^verbatim>\<open><UNK>\<close> (with the character ids, when
  those are configured) when it is on and the vocabulary has \<^verbatim>\<open><UNK>\<close>. A token whose
  processed form is in \<open>v\<close> gets the id of that form, whatever \<^verbatim>\<open>allow_unk\<close> is.
\<close>

theorem fit_unknown_handling:
  assumes "word_vocab p = Some v"
  shows "(v (preprocess_word py p word) = None \<and> \<not> allow_unk p
           \<longrightarrow> fit py p word = Inl UnknownKey)
    \<and> (v (preprocess_word py p word) = None \<and> allow_unk p \<and> v UNK = Some u
           \<longrightarrow> (\<exists>r. fit py p word = Inr r \<and> word_of r = Id u))
    \<and> (v (preprocess_word py p word) = Some i
           \<longrightarrow> (\<exists>r. fit py p word = Inr r \<and> word_of r = Id i))"
  using assms by (auto simp: fit_def word_id_def Let_def)

theorem fit_unknown_handling_witness:
  "word_vocab \<lparr> word_vocab = Some (map_of [(''<UNK>'', 0), (''<NUM>'', 1), (''the'', 2)]),
       char_vocab = None, lowercase = True, use_chars = False, allow_unk = False \<rparr>
     = Some (map_of [(''<UNK>'', 0), (''<NUM>'', 1), (''the'', 2)])
   \<and> fit python3 \<lparr> word_vocab = Some (map_of [(''<UNK>'', 0), (''<NUM>'', 1), (''the'', 2)]),
       char_vocab = None, lowercase = True, use_chars = False, allow_unk = False \<rparr> ''xyz''
     = Inl UnknownKey
   \<and> fit python3 \<lparr> word_vocab = Some (map_of [(''<UNK>'', 0), (''<NUM>'', 1), (''the'', 2)]),
       char_vocab = None, lowercase = True, use_chars = False, allow_unk = True \<rparr> ''xyz''
     = Inr (Word (Id 0))
   \<and> fit python3 \<lparr> word_vocab = Some (map_of [(''<UNK>'', 0), (''<NUM>'', 1), (''the'', 2)]),
       char_vocab = None, lowercase = True, use_chars = False, allow_unk = False \<rparr> ''The''
     = Inr (Word (Id 2))
   \<and> fit python3 \<lparr> word_vocab = Some (map_of [(''<UNK>'', 0), (''<NUM>'', 1), (''the'', 2)]),
       char_vocab = None, lowercase = True, use_chars = False, allow_unk = False \<rparr> ''3.14''
     = Inr (Word (Id 1))"
proof -
  let ?v = "map_of [(''<UNK>'', 0::nat), (''<NUM>'', 1), (''the'', 2)]"
  let ?p = "\<lparr> word_vocab = Some ?v,
       char_vocab = None, lowercase = True, use_chars = False, allow_unk = False \<rparr>"
  have pre: "preprocess_word python3 ?p ''xyz'' = ''xyz''" by code_simp
  have none: "?v (preprocess_word python3 ?p ''xyz'') = None" unfolding pre by simp
  have a: "fit python3 ?p ''xyz'' = Inl UnknownKey"
    using fit_unknown_handling[of ?p ?v python3 "''xyz''" 0 0] none by simp
  have b: "fit python3 (?p\<lparr>allow_unk := True\<rparr>) ''xyz'' = Inr (Word (Id 0))" by code_simp
  have c: "fit python3 ?p ''The'' = Inr (Word (Id 2))" by code_simp
  have d: "fit python3 ?p ''3.14'' = Inr (Word (Id 1))" by code_simp
  from a b c d show ?thesis by simp
qed

section \<open>Properties of batching\<close>

lemma transpose_sentence_tokens:
  "has_tokens x \<Longrightarrow> transpose_sentence x = Inr (batched x)"
  by (cases x rule: transpose_sentence.cases) simp_all

lemma batch_loop_shape:
  assumes B: "0 < B"
  shows "\<forall>(x, y)\<in>set rest. has_tokens x \<Longrightarrow> length bx = length by \<Longrightarrow> length bx \<le> B
    \<Longrightarrow> rest \<noteq> [] \<or> bx \<noteq> []
    \<Longrightarrow> \<exists>full lx ly. batch_loop rest (int B) (bx, by) out = (out @ full @ [(lx, ly)], None)
          \<and> (\<forall>b\<in>set full. length (fst b) = B \<and> length (snd b) = B)
          \<and> lx \<noteq> [] \<and> length lx \<le> B \<and> length ly = length lx
          \<and> concat (map fst full) @ lx = bx @ map (batched \<circ> fst) rest
          \<and> concat (map snd full) @ ly = by @ map snd rest"
proof (induction rest arbitrary: bx "by" out)
  case Nil
  then have "bx \<noteq> []" by simp
  moreover from this Nil.prems(2) have "by \<noteq> []" by auto
  ultimately have
    "batch_loop [] (int B) (bx, by) out = (out @ [] @ [(bx, by)], None)
      \<and> (\<forall>b\<in>set ([]::'a batch list). length (fst b) = B \<and> length (snd b) = B)
      \<and> bx \<noteq> [] \<and> length bx \<le> B \<and> length by = length bx
      \<and> concat (map fst ([]::'a batch list)) @ bx = bx @ map (batched \<circ> fst) []
      \<and> concat (map snd ([]::'a batch list)) @ by = by @ map snd []"
    using Nil.prems(2,3) by simp
  then show ?case by blast
next
  case (Cons a rest)
  obtain x y where a: "a = (x, y)" by (cases a)
  from Cons.prems(1) a have hx: "has_tokens x" and hr: "\<forall>(x, y)\<in>set rest. has_tokens x"
    by auto
  note tr = transpose_sentence_tokens[OF hx]
  show ?case
  proof (cases "length bx = B")
    case True
    have step: "batch_loop (a # rest) (int B) (bx, by) out
        = batch_loop rest (int B) ([batched x], [y]) (out @ [(bx, by)])"
      using True a tr by simp
    from Cons.IH[OF hr, of "[batched x]" "[y]" "out @ [(bx, by)]"] B
    obtain full lx ly where
      l: "batch_loop rest (int B) ([batched x], [y]) (out @ [(bx, by)])
            = ((out @ [(bx, by)]) @ full @ [(lx, ly)], None)"
      and f: "\<forall>b\<in>set full. length (fst b) = B \<and> length (snd b) = B"
      and s: "lx \<noteq> []" "length lx \<le> B" "length ly = length lx"
      and cx: "concat (map fst full) @ lx = [batched x] @ map (batched \<circ> fst) rest"
      and cy: "concat (map snd full) @ ly = [y] @ map snd rest"
      by (auto simp: Suc_le_eq)
    show ?thesis
    proof (intro exI conjI)
      show "batch_loop (a # rest) (int B) (bx, by) out = (out @ ((bx, by) # full) @ [(lx, ly)], None)"
        using step l by simp
      show "\<forall>b\<in>set ((bx, by) # full). length (fst b) = B \<and> length (snd b) = B"
        using f True Cons.prems(2) by simp
      show "lx \<noteq> []" "length lx \<le> B" "length ly = length lx" by fact+
      show "concat (map fst ((bx, by) # full)) @ lx = bx @ map (batched \<circ> fst) (a # rest)"
        using cx a by simp
      show "concat (map snd ((bx, by) # full)) @ ly = by @ map snd (a # rest)"
        using cy a by simp
    qed
  next
    case False
    with Cons.prems(3) have lt: "length bx < B" by simp
    have step: "batch_loop (a # rest) (int B) (bx, by) out
        = batch_loop rest (int B) (bx @ [batched x], by @ [y]) out"
      using False a tr by simp
    from Cons.IH[OF hr, of "bx @ [batched x]" "by @ [y]" out] lt Cons.prems(2)
    obtain full lx ly where
      l: "batch_loop rest (int B) (bx @ [batched x], by @ [y]) out = (out @ full @ [(lx, ly)], None)"
      and f: "\<forall>b\<in>set full. length (fst b) = B \<and> length (snd b) = B"
      and s: "lx \<noteq> []" "length lx \<le> B" "length ly = length lx"
      and cx: "concat (map fst full) @ lx = (bx @ [batched x]) @ map (batched \<circ> fst) rest"
      and cy: "concat (map snd full) @ ly = (by @ [y]) @ map snd rest"
      by (auto simp: Suc_le_eq)
    show ?thesis
    proof (intro exI conjI)
      show "batch_loop (a # rest) (int B) (bx, by) out = (out @ full @ [(lx, ly)], None)"
        using step l by simp
      show "\<forall>b\<in>set full. length (fst b) = B \<and> length (snd b) = B" by fact
      show "lx \<noteq> []" "length lx \<le> B" "length ly = length lx" by fact+
      show "concat (map fst full) @ lx = bx @ map (batched \<circ> fst) (a # rest)"
        using cx a by simp
      show "concat (map snd full) @ ly = by @ map snd (a # rest)"
        using cy a by simp
    qed
  qed
qed

lemma length_concat_full:
  "\<forall>b\<in>set full. length (fst b) = B \<Longrightarrow> length (concat (map fst full)) = length full * B"
  by (induction full) simp_all

lemma div_of_sum:
  fixes B k r :: nat
  assumes "r < B"
  shows "(k * B + r) div B = k"
  using assms by (metis div_mult_self3 div_less add.right_neutral less_nat_zero_code gr0I)

lemma count_from_sizes:
  fixes N B k l :: nat
  assumes "N = k * B + l" and "0 < l" and "l \<le> B"
  shows "Suc k = (N + B - 1) div B" and "l = (if N mod B = 0 then B else N mod B)"
proof -
  have lt: "l - 1 < B" using assms by simp
  have "N + B - 1 = Suc k * B + (l - 1)" using assms by simp
  then have "(N + B - 1) div B = (Suc k * B + (l - 1)) div B" by (simp only:)
  also have "\<dots> = Suc k" using lt by (rule div_of_sum)
  finally show "Suc k = (N + B - 1) div B" by simp
  show "l = (if N mod B = 0 then B else N mod B)"
  proof (cases "l = B")
    case True
    with assms(1) have "N = Suc k * B" by simp
    with True show ?thesis by simp
  next
    case False
    with assms have "l < B" by simp
    with assms(1,2) show ?thesis by simp
  qed
qed

text \<open>
  Claim C8 (batch count and sizes), as the code has it. For a dataset of \<open>N \<ge> 1\<close>
  sentence/tag pairs in which every sentence has at least one token, and a batch size
  \<open>B \<ge> 1\<close>, \<^verbatim>\<open>batch_iter\<close> ends without an exception after yielding exactly
  \<open>ceil(N / B)\<close> batches; every batch but the last has \<open>B\<close> sentences and \<open>B\<close> tag
  lists; the last has \<open>N - B * floor(N / B)\<close> of them when \<open>N\<close> is not a multiple of \<open>B\<close>
  and \<open>B\<close> otherwise; and the batches, one after the other, hold the sentences and the
  tag lists in the order of the dataset.
\<close>

theorem batch_iter_counts:
  assumes "1 \<le> length dataset" and "1 \<le> B" and "\<forall>(x, y)\<in>set dataset. has_tokens x"
  shows "\<exists>batches. batch_iter dataset (int B) = (batches, None)
    \<and> length batches = (length dataset + B - 1) div B
    \<and> (\<forall>k. Suc k < length batches \<longrightarrow>
          length (fst (batches ! k)) = B \<and> length (snd (batches ! k)) = B)
    \<and> length (fst (last batches))
        = (if length dataset mod B = 0 then B else length dataset - B * (length dataset div B))
    \<and> length (snd (last batches)) = length (fst (last batches))
    \<and> concat (map fst batches) = map (batched \<circ> fst) dataset
    \<and> concat (map snd batches) = map snd dataset"
proof -
  from assms(1) have ne: "dataset \<noteq> [] \<or> ([]::batch_sentence list) \<noteq> []" by auto
  from assms(2) have B: "0 < B" by simp
  from batch_loop_shape[OF B assms(3), of "[]" "[]" "[]", OF _ _ ne]
  obtain full lx ly where
    l: "batch_iter dataset (int B) = (full @ [(lx, ly)], None)"
    and f: "\<forall>b\<in>set full. length (fst b) = B \<and> length (snd b) = B"
    and s: "lx \<noteq> []" "length lx \<le> B" "length ly = length lx"
    and cx: "concat (map fst full) @ lx = map (batched \<circ> fst) dataset"
    and cy: "concat (map snd full) @ ly = map snd dataset"
    by (auto simp: batch_iter_def)
  have "length (concat (map fst full) @ lx) = length dataset" using cx by simp
  then have N: "length dataset = length full * B + length lx"
    using length_concat_full[of full B] f by simp
  have l0: "0 < length lx" using s(1) by simp
  note cnt = count_from_sizes[OF N l0 s(2)]
  have modeq: "length dataset - B * (length dataset div B) = length dataset mod B"
    by (simp add: minus_mult_div_eq_mod)
  show ?thesis
  proof (intro exI conjI allI impI)
    show "batch_iter dataset (int B) = (full @ [(lx, ly)], None)" by fact
    show "length (full @ [(lx, ly)]) = (length dataset + B - 1) div B"
      using cnt(1) by simp
    show "length (fst (last (full @ [(lx, ly)])))
        = (if length dataset mod B = 0 then B else length dataset - B * (length dataset div B))"
      using cnt(2) modeq by simp
    show "length (snd (last (full @ [(lx, ly)]))) = length (fst (last (full @ [(lx, ly)])))"
      using s(3) by simp
    show "concat (map fst (full @ [(lx, ly)])) = map (batched \<circ> fst) dataset"
      using cx by simp
    show "concat (map snd (full @ [(lx, ly)])) = map snd dataset"
      using cy by simp
  next
    fix k assume "Suc k < length (full @ [(lx, ly)])"
    then have k: "k < length full" by simp
    then have "(full @ [(lx, ly)]) ! k = full ! k" by (simp add: nth_append)
    moreover have "full ! k \<in> set full" using k by simp
    ultimately show "length (fst ((full @ [(lx, ly)]) ! k)) = B"
      and "length (snd ((full @ [(lx, ly)]) ! k)) = B"
      using f by auto
  qed
qed


theorem batch_iter_counts_witness:
  "1 \<le> length [(Words [Id 1, Id 2], ''a''), (Tuples [([7], Id 3)], ''b''), (Words [Id 4], ''c'')]
   \<and> (1::nat) \<le> 2
   \<and> batch_iter [(Words [Id 1, Id 2], ''a''), (Tuples [([7], Id 3)], ''b''), (Words [Id 4], ''c'')] 2
       = ([([Unchanged [Id 1, Id 2], Zipped [[7]] [Id 3]], [''a'', ''b'']),
           ([Unchanged [Id 4]], [''c''])], None)
   \<and> (\<exists>batches.
         batch_iter [(Words [Id 1, Id 2], ''a''), (Tuples [([7], Id 3)], ''b''), (Words [Id 4], ''c'')]
           (int 2) = (batches, None)
         \<and> length batches = (3 + 2 - 1) div 2)"
proof -
  let ?d = "[(Words [Id 1, Id 2], ''a''), (Tuples [([7], Id 3)], ''b''), (Words [Id 4], ''c'')]"
  have "\<exists>batches. batch_iter ?d (int 2) = (batches, None)
      \<and> length batches = (3 + 2 - 1) div 2"
    using batch_iter_counts[of ?d 2] by auto
  moreover have "batch_iter ?d 2
       = ([([Unchanged [Id 1, Id 2], Zipped [[7]] [Id 3]], [''a'', ''b'']),
           ([Unchanged [Id 4]], [''c''])], None)"
    by (simp add: batch_iter_def)
  ultimately show ?thesis by simp
qed

text \<open>
  A sentence without tokens ends the generator with \<^verbatim>\<open>IndexError\<close> (\<^verbatim>\<open>x[0]\<close>), so the
  count fails for a dataset that holds one.
\<close>

theorem batch_iter_counterexample:
  "batch_iter [(Words [], ''a'')] 1 = ([], Some IndexError)
   \<and> batch_iter [(Words [Id 1], ''a''), (Words [], ''b''), (Words [Id 2], ''c'')] 1
       = ([([Unchanged [Id 1]], [''a''])], Some IndexError)"
  by (simp add: batch_iter_def)

section \<open>Properties of the corpus iteration\<close>

lemma iter_step_stop:
  "iter_step py ds line st = Stop ys e \<Longrightarrow> ys = it_yielded st"
  by (auto simp: iter_step_def Let_def split: if_splits sum.splits option.splits)

lemma iter_step_token:
  assumes "\<not> is_boundary py line" and "iter_step py ds line st = Continue st'"
  shows "it_yielded st' = it_yielded st"
  using assms
  by (auto simp: iter_step_def is_boundary_def Let_def split: if_splits sum.splits)

lemma iter_step_boundary:
  assumes "iter_step py ds line st = Continue st'"
  shows "length (it_yielded st') \<le> length (it_yielded st) + (if is_boundary py line then 1 else 0)"
proof (cases "is_boundary py line")
  case True
  with assms show ?thesis
    by (auto simp: iter_step_def is_boundary_def Let_def split: if_splits option.splits)
next
  case False
  with iter_step_token[OF False assms] show ?thesis by simp
qed

lemma iter_loop_tokens:
  "\<forall>line\<in>set tail. \<not> is_boundary py line \<Longrightarrow> fst (iter_loop py ds tail st) = it_yielded st"
proof (induction tail arbitrary: st)
  case Nil
  then show ?case by simp
next
  case (Cons line tail)
  show ?case
  proof (cases "iter_step py ds line st")
    case (Continue st')
    from Cons.prems have nb: "\<not> is_boundary py line" and rest: "\<forall>l\<in>set tail. \<not> is_boundary py l"
      by auto
    from Cons.IH[OF rest, of st'] iter_step_token[OF nb Continue] Continue
    show ?thesis by simp
  next
    case (Stop ys e)
    with iter_step_stop[OF Stop] show ?thesis by simp
  qed
qed

lemma iter_loop_append_tokens:
  assumes "\<forall>line\<in>set tail. \<not> is_boundary py line"
  shows "fst (iter_loop py ds (pre @ tail) st) = fst (iter_loop py ds pre st)"
proof (induction pre arbitrary: st)
  case Nil
  show ?case using iter_loop_tokens[OF assms] by simp
next
  case (Cons line pre)
  show ?case
  proof (cases "iter_step py ds line st")
    case (Continue st')
    with Cons.IH[of st'] show ?thesis by simp
  next
    case (Stop ys e)
    then show ?thesis by simp
  qed
qed

lemma iter_loop_count:
  "length (fst (iter_loop py ds lines st))
     \<le> length (it_yielded st) + length (filter (is_boundary py) lines)"
proof (induction lines arbitrary: st)
  case Nil
  then show ?case by simp
next
  case (Cons line lines)
  show ?case
  proof (cases "iter_step py ds line st")
    case (Continue st')
    from Cons.IH[of st'] iter_step_boundary[OF Continue] Continue
    show ?thesis by (simp split: if_splits)
  next
    case (Stop ys e)
    with iter_step_stop[OF Stop] show ?thesis by simp
  qed
qed

text \<open>
  Claim C10 (a trailing sentence without its boundary is dropped). Token lines that
  follow the last boundary line of a file (a blank line, or one that starts with
  \<^verbatim>\<open>-DOCSTART-\<close>) change nothing in what the iteration yields: the file yields what it
  would yield without them. A pair is yielded only at a boundary line, so the pairs are
  at most as many as the boundary lines. In the example the sentence \<^verbatim>\<open>b c\<close> is lost at
  the end of the file and yielded once a blank line follows it.
\<close>

theorem dataset_iter_drops_trailing_sentence:
  assumes "\<forall>line\<in>set tail. \<not> is_boundary py line"
  shows "fst (dataset_iter py ds (pre @ tail)) = fst (dataset_iter py ds pre)
    \<and> length (fst (dataset_iter py ds lines)) \<le> length (filter (is_boundary py) lines)
    \<and> dataset_iter python3
         \<lparr> tag_idx = - 1, word_processor = None, tag_processor = None, delimiter = '' '',
           max_iter = None \<rparr>
         [''a X\<newline>'', ''\<newline>'', ''b Y\<newline>'', ''c Z''] 
        = ([([Word (Str ''a'')], [Word (Str ''X'')])], None)
    \<and> dataset_iter python3
         \<lparr> tag_idx = - 1, word_processor = None, tag_processor = None, delimiter = '' '',
           max_iter = None \<rparr>
         [''a X\<newline>'', ''\<newline>'', ''b Y\<newline>'', ''c Z'', ''\<newline>'']
        = ([([Word (Str ''a'')], [Word (Str ''X'')]),
            ([Word (Str ''b''), Word (Str ''c'')], [Word (Str ''Y''), Word (Str ''Z'')])], None)"
proof (intro conjI)
  show "fst (dataset_iter py ds (pre @ tail)) = fst (dataset_iter py ds pre)"
    unfolding dataset_iter_def by (rule iter_loop_append_tokens[OF assms])
  show "length (fst (dataset_iter py ds lines)) \<le> length (filter (is_boundary py) lines)"
    unfolding dataset_iter_def
    using iter_loop_count[of py ds lines "\<lparr> it_niter = 0, it_words = [], it_tags = [], it_yielded = [] \<rparr>"]
    by simp
  show "dataset_iter python3
         \<lparr> tag_idx = - 1, word_processor = None, tag_processor = None, delimiter = '' '',
           max_iter = None \<rparr>
         [''a X\<newline>'', ''\<newline>'', ''b Y\<newline>'', ''c Z''] 
        = ([([Word (Str ''a'')], [Word (Str ''X'')])], None)"
    by code_simp
  show "dataset_iter python3
         \<lparr> tag_idx = - 1, word_processor = None, tag_processor = None, delimiter = '' '',
           max_iter = None \<rparr>
         [''a X\<newline>'', ''\<newline>'', ''b Y\<newline>'', ''c Z'', ''\<newline>'']
        = ([([Word (Str ''a'')], [Word (Str ''X'')]),
            ([Word (Str ''b''), Word (Str ''c'')], [Word (Str ''Y''), Word (Str ''Z'')])], None)"
    by code_simp
qed

theorem dataset_iter_drops_trailing_sentence_witness:
  "\<not> is_boundary python3 ''b Y\<newline>'' \<and> \<not> is_boundary python3 ''c Z''
   \<and> fst (dataset_iter python3
         \<lparr> tag_idx = 1, word_processor = None, tag_processor = None, delimiter = '' '',
           max_iter = None \<rparr>
         ([''a X\<newline>'', ''-DOCSTART- -X- O'', ''\<newline>''] @ [''b Y\<newline>'', ''c Z'']))
     = fst (dataset_iter python3
         \<lparr> tag_idx = 1, word_processor = None, tag_processor = None, delimiter = '' '',
           max_iter = None \<rparr>
         [''a X\<newline>'', ''-DOCSTART- -X- O'', ''\<newline>''])
   \<and> fst (dataset_iter python3
         \<lparr> tag_idx = 1, word_processor = None, tag_processor = None, delimiter = '' '',
           max_iter = None \<rparr>
         [''a X\<newline>'', ''-DOCSTART- -X- O'', ''\<newline>''])
     = [([Word (Str ''a'')], [Word (Str ''X'')])]"
proof -
  have nb: "\<forall>line\<in>set [''b Y\<newline>'', ''c Z'']. \<not> is_boundary python3 line"
    by code_simp
  have a: "\<not> is_boundary python3 ''b Y\<newline>''" "\<not> is_boundary python3 ''c Z''"
    using nb by simp_all
  have b: "fst (dataset_iter python3
         \<lparr> tag_idx = 1, word_processor = None, tag_processor = None, delimiter = '' '',
           max_iter = None \<rparr>
         [''a X\<newline>'', ''-DOCSTART- -X- O'', ''\<newline>''])
     = [([Word (Str ''a'')], [Word (Str ''X'')])]"
    by code_simp
  from dataset_iter_drops_trailing_sentence[OF nb, THEN conjunct1] a b show ?thesis
    by (simp only: simp_thms)
qed


end
